theory Spec2Isabelle
  imports Complex_Main "HOL-Library.Multiset"
begin

section \<open>JavaScript values\<close>

text \<open>
  Request bodies are parsed JSON and query values are strings; the handlers test them
  with \<^verbatim>\<open>!x\<close>, \<^verbatim>\<open>x !== undefined\<close> and \<^verbatim>\<open>===\<close>. A number is the value the parser
  produced: a finite one (every finite double is a rational) or an infinity (an
  overflowing literal); JSON has no NaN.
\<close>

datatype jsnum = Finite rat | Infinity bool

datatype jsval =
    JUndefined
  | JNull
  | JBool bool
  | JNum jsnum
  | JStr string
  | JArr "jsval list"
  | JObj "(string \<times> jsval) list"

text \<open>ToBoolean: what \<^verbatim>\<open>!!x\<close> yields.\<close>

fun truthy :: "jsval \<Rightarrow> bool" where
  "truthy JUndefined = False"
| "truthy JNull = False"
| "truthy (JBool b) = b"
| "truthy (JNum (Finite r)) = (r \<noteq> 0)"
| "truthy (JNum (Infinity _)) = True"
| "truthy (JStr s) = (s \<noteq> [])"
| "truthy (JArr _) = True"
| "truthy (JObj _) = True"

text \<open>
  \<^verbatim>\<open>a === b\<close>. Primitives compare by type and value. Arrays and objects compare by
  identity, and every comparison of the handlers has on one side a value parsed from the
  current request, which is no object stored before: such a comparison is false.
\<close>

fun strict_equals :: "jsval \<Rightarrow> jsval \<Rightarrow> bool" where
  "strict_equals (JArr _) _ = False"
| "strict_equals (JObj _) _ = False"
| "strict_equals a b = (a = b)"

text \<open>\<^verbatim>\<open>req.body || {}\<close>, and reading one property of the result (destructuring).\<close>

definition body_or_empty :: "jsval \<Rightarrow> jsval" where
  "body_or_empty b = (if truthy b then b else JObj [])"

fun property :: "jsval \<Rightarrow> string \<Rightarrow> jsval" where
  "property (JObj kvs) k = (case map_of kvs k of Some v \<Rightarrow> v | None \<Rightarrow> JUndefined)"
| "property _ k = JUndefined"

definition body_field :: "jsval \<Rightarrow> string \<Rightarrow> jsval" where
  "body_field body k = property (body_or_empty body) k"

section \<open>Identifier generator\<close>

text \<open>\<^verbatim>\<open>String(n)\<close> for a non-negative integer: its decimal digits.\<close>

definition digit :: "nat \<Rightarrow> char" where
  "digit d = ''0123456789'' ! d"

function String_of :: "nat \<Rightarrow> string" where
  "String_of n = (if n < 10 then [digit n] else String_of (n div 10) @ [digit (n mod 10)])"
  by pat_completeness auto
termination
  by (relation "measure (\<lambda>n. n)") auto

declare String_of.simps [simp del]

section \<open>Entity store of server.js: two arrays\<close>

record user =
  uid :: string
  name :: jsval
  email :: jsval

record todo =
  tid :: string
  userId :: jsval
  title :: jsval
  completed :: jsval

record store =
  users :: "user list"
  todos :: "todo list"
  nextId :: nat

text \<open>What a handler sends: \<^verbatim>\<open>res.status(c).json(...)\<close>.\<close>

datatype reply =
    ErrorJson nat string
  | UserJson nat user
  | TodoJson nat todo
  | OkJson

text \<open>\<^verbatim>\<open>const makeId = () => String(nextId++)\<close>\<close>

definition makeId :: "store \<Rightarrow> string \<times> store" where
  "makeId s = (String_of (nextId s), s\<lparr>nextId := nextId s + 1\<rparr>)"

definition seed :: store where
  "seed =
    (case makeId \<lparr>users = [], todos = [], nextId = 1\<rparr> of (i1, s1) \<Rightarrow>
     case makeId s1 of (i2, s2) \<Rightarrow>
     let us = [\<lparr>uid = i1, name = JStr ''Alice'', email = JStr ''alice@example.com''\<rparr>,
               \<lparr>uid = i2, name = JStr ''Bob'', email = JStr ''bob@example.com''\<rparr>] in
     case makeId s2 of (i3, s3) \<Rightarrow>
     case makeId s3 of (i4, s4) \<Rightarrow>
     case makeId s4 of (i5, s5) \<Rightarrow>
       s5\<lparr>users := us,
          todos := [\<lparr>tid = i3, userId = JStr (uid (us ! 0)), title = JStr ''Buy coffee'',
                      completed = JBool False\<rparr>,
                    \<lparr>tid = i4, userId = JStr (uid (us ! 0)), title = JStr ''Edit wedding photos'',
                      completed = JBool True\<rparr>,
                    \<lparr>tid = i5, userId = JStr (uid (us ! 1)),
                      title = JStr ''Prepare client proposal'', completed = JBool False\<rparr>]\<rparr>)"

text \<open>
  \<^verbatim>\<open>xs.findIndex(p)\<close> (-1 when nothing matches), \<^verbatim>\<open>xs.splice(i, 1)\<close>, and the effect of
  assigning to the fields of the object \<^verbatim>\<open>xs.find(p)\<close> returned: the first match of the
  array is that object.
\<close>

fun findIndex :: "('a \<Rightarrow> bool) \<Rightarrow> 'a list \<Rightarrow> int" where
  "findIndex p [] = -1"
| "findIndex p (x # xs) =
     (if p x then 0 else (let i = findIndex p xs in if i = -1 then -1 else i + 1))"

definition splice1 :: "nat \<Rightarrow> 'a list \<Rightarrow> 'a list" where
  "splice1 i xs = take i xs @ drop (Suc i) xs"

fun assign_first :: "('a \<Rightarrow> bool) \<Rightarrow> 'a \<Rightarrow> 'a list \<Rightarrow> 'a list" where
  "assign_first p y [] = []"
| "assign_first p y (x # xs) = (if p x then y # xs else x # assign_first p y xs)"

text \<open>POST /api/users\<close>

definition createUser :: "store \<Rightarrow> jsval \<Rightarrow> store \<times> reply" where
  "createUser s body =
    (let nm = body_field body ''name''; em = body_field body ''email'' in
     if \<not> truthy nm \<or> \<not> truthy em then (s, ErrorJson 400 ''name and email are required'')
     else case makeId s of (i, s1) \<Rightarrow>
       let u = \<lparr>uid = i, name = nm, email = em\<rparr>
       in (s1\<lparr>users := users s1 @ [u]\<rparr>, UserJson 201 u))"

text \<open>PATCH /api/users/:id\<close>

definition updateUser :: "store \<Rightarrow> string \<Rightarrow> jsval \<Rightarrow> store \<times> reply" where
  "updateUser s i body =
    (case find (\<lambda>u. uid u = i) (users s) of
       None \<Rightarrow> (s, ErrorJson 404 ''user not found'')
     | Some u \<Rightarrow>
        let nm = body_field body ''name''; em = body_field body ''email'';
            u1 = (if nm \<noteq> JUndefined then u\<lparr>name := nm\<rparr> else u);
            u2 = (if em \<noteq> JUndefined then u1\<lparr>email := em\<rparr> else u1)
        in (s\<lparr>users := assign_first (\<lambda>u. uid u = i) u2 (users s)\<rparr>, UserJson 200 u2))"

text \<open>
  DELETE /api/users/:id. The cascade loop runs \<^verbatim>\<open>i\<close> from \<^verbatim>\<open>todos.length - 1\<close> down to 0;
  \<open>cascade rid tds k\<close> is the loop with \<open>k = i + 1\<close> iterations left.
\<close>

fun cascade :: "string \<Rightarrow> todo list \<Rightarrow> nat \<Rightarrow> todo list" where
  "cascade rid tds 0 = tds"
| "cascade rid tds (Suc i) =
     cascade rid (if strict_equals (userId (tds ! i)) (JStr rid) then splice1 i tds else tds) i"

definition deleteUser :: "store \<Rightarrow> string \<Rightarrow> store \<times> reply" where
  "deleteUser s i =
    (let idx = findIndex (\<lambda>u. uid u = i) (users s) in
     if idx = -1 then (s, ErrorJson 404 ''user not found'')
     else
       let removed = users s ! nat idx;
           us = splice1 (nat idx) (users s)
       in (s\<lparr>users := us, todos := cascade (uid removed) (todos s) (length (todos s))\<rparr>, OkJson))"

text \<open>
  GET /api/todos: \<^verbatim>\<open>req.query\<close> gives each parameter as a value or undefined. The
  filters work on a copy of the collection (\<^verbatim>\<open>[...todos]\<close>).
\<close>

definition filterTodos :: "todo list \<Rightarrow> jsval \<Rightarrow> jsval \<Rightarrow> todo list" where
  "filterTodos l0 qUserId qCompleted =
    (let l1 = (if truthy qUserId then filter (\<lambda>t. strict_equals (userId t) qUserId) l0 else l0);
         l2 = (if qCompleted \<noteq> JUndefined then
                 (if strict_equals qCompleted (JStr ''true'')
                    then filter (\<lambda>t. strict_equals (completed t) (JBool True)) l1
                  else if strict_equals qCompleted (JStr ''false'')
                    then filter (\<lambda>t. strict_equals (completed t) (JBool False)) l1
                  else l1)
               else l1)
     in l2)"

definition listTodos :: "store \<Rightarrow> jsval \<Rightarrow> jsval \<Rightarrow> todo list" where
  "listTodos s qUserId qCompleted = filterTodos (todos s) qUserId qCompleted"

text \<open>POST /api/todos\<close>

definition createTodo :: "store \<Rightarrow> jsval \<Rightarrow> store \<times> reply" where
  "createTodo s body =
    (let uI = body_field body ''userId''; ti = body_field body ''title'';
         co = (let c = body_field body ''completed'' in if c = JUndefined then JBool False else c)
     in
     if \<not> truthy uI \<or> \<not> truthy ti then (s, ErrorJson 400 ''userId and title are required'')
     else if find (\<lambda>u. strict_equals (JStr (uid u)) uI) (users s) = None
       then (s, ErrorJson 400 ''invalid userId'')
     else case makeId s of (i, s1) \<Rightarrow>
       let t = \<lparr>tid = i, userId = uI, title = ti, completed = JBool (truthy co)\<rparr>
       in (s1\<lparr>todos := todos s1 @ [t]\<rparr>, TodoJson 201 t))"

text \<open>
  PATCH /api/todos/:id. The title and the completed flag are assigned before the userId
  is looked up, so the 400 reply leaves those assignments in the store.
\<close>

definition updateTodo :: "store \<Rightarrow> string \<Rightarrow> jsval \<Rightarrow> store \<times> reply" where
  "updateTodo s i body =
    (case find (\<lambda>t. tid t = i) (todos s) of
       None \<Rightarrow> (s, ErrorJson 404 ''todo not found'')
     | Some t \<Rightarrow>
        let ti = body_field body ''title''; co = body_field body ''completed'';
            uI = body_field body ''userId'';
            t1 = (if ti \<noteq> JUndefined then t\<lparr>title := ti\<rparr> else t);
            t2 = (if co \<noteq> JUndefined then t1\<lparr>completed := JBool (truthy co)\<rparr> else t1)
        in
        if uI \<noteq> JUndefined then
          (if find (\<lambda>u. strict_equals (JStr (uid u)) uI) (users s) = None
             then (s\<lparr>todos := assign_first (\<lambda>t. tid t = i) t2 (todos s)\<rparr>,
                   ErrorJson 400 ''invalid userId'')
           else
             let t3 = t2\<lparr>userId := uI\<rparr>
             in (s\<lparr>todos := assign_first (\<lambda>t. tid t = i) t3 (todos s)\<rparr>, TodoJson 200 t3))
        else (s\<lparr>todos := assign_first (\<lambda>t. tid t = i) t2 (todos s)\<rparr>, TodoJson 200 t2))"

text \<open>DELETE /api/todos/:id\<close>

definition deleteTodo :: "store \<Rightarrow> string \<Rightarrow> store \<times> reply" where
  "deleteTodo s i =
    (let idx = findIndex (\<lambda>t. tid t = i) (todos s) in
     if idx = -1 then (s, ErrorJson 404 ''todo not found'')
     else (s\<lparr>todos := splice1 (nat idx) (todos s)\<rparr>, OkJson))"

text \<open>A mutating request, and a sequence of them run on the store.\<close>

datatype request =
    CreateUser jsval
  | UpdateUser string jsval
  | DeleteUser string
  | CreateTodo jsval
  | UpdateTodo string jsval
  | DeleteTodo string

fun handle :: "store \<Rightarrow> request \<Rightarrow> store \<times> reply" where
  "handle s (CreateUser b) = createUser s b"
| "handle s (UpdateUser i b) = updateUser s i b"
| "handle s (DeleteUser i) = deleteUser s i"
| "handle s (CreateTodo b) = createTodo s b"
| "handle s (UpdateTodo i b) = updateTodo s i b"
| "handle s (DeleteTodo i) = deleteTodo s i"

definition run :: "store \<Rightarrow> request list \<Rightarrow> store" where
  "run s rs = foldl (\<lambda>s r. fst (handle s r)) s rs"

text \<open>Every todo of the store names an existing user.\<close>

definition integrity :: "store \<Rightarrow> bool" where
  "integrity s = (\<forall>t \<in> set (todos s). \<exists>u \<in> set (users s). userId t = JStr (uid u))"

section \<open>Entity store of the second server file: two Maps keyed by id\<close>

text \<open>
  A JavaScript \<^verbatim>\<open>Map\<close> with string keys: its entries in insertion order. \<^verbatim>\<open>set\<close> replaces
  the value of a key in place or appends a new entry; \<^verbatim>\<open>delete\<close> removes the key's entry;
  \<^verbatim>\<open>get\<close> called with a value that is no string finds nothing, the keys being strings.
\<close>

type_synonym 'v jsmap = "(string \<times> 'v) list"

fun assoc_set :: "'k \<Rightarrow> 'v \<Rightarrow> ('k \<times> 'v) list \<Rightarrow> ('k \<times> 'v) list" where
  "assoc_set k v [] = [(k, v)]"
| "assoc_set k v (e # es) = (if fst e = k then (k, v) # es else e # assoc_set k v es)"

definition Map_get :: "'v jsmap \<Rightarrow> jsval \<Rightarrow> 'v option" where
  "Map_get m key = (case key of JStr k \<Rightarrow> map_of m k | _ \<Rightarrow> None)"

definition Map_set :: "string \<Rightarrow> 'v \<Rightarrow> 'v jsmap \<Rightarrow> 'v jsmap" where
  "Map_set k v m = assoc_set k v m"

definition Map_delete :: "string \<Rightarrow> 'v jsmap \<Rightarrow> 'v jsmap" where
  "Map_delete k m = filter (\<lambda>e. fst e \<noteq> k) m"

definition Map_values :: "'v jsmap \<Rightarrow> 'v list" where
  "Map_values m = map snd m"

record mstore =
  users_m :: "user jsmap"
  todos_m :: "todo jsmap"
  nextId_m :: nat

definition makeId_m :: "mstore \<Rightarrow> string \<times> mstore" where
  "makeId_m s = (String_of (nextId_m s), s\<lparr>nextId_m := nextId_m s + 1\<rparr>)"

definition seed_m :: mstore where
  "seed_m =
    (case makeId_m \<lparr>users_m = [], todos_m = [], nextId_m = 1\<rparr> of (i1, s1) \<Rightarrow>
     case makeId_m s1 of (i2, s2) \<Rightarrow>
     let alice = \<lparr>uid = i1, name = JStr ''Alice'', email = JStr ''alice@example.com''\<rparr>;
         bob = \<lparr>uid = i2, name = JStr ''Bob'', email = JStr ''bob@example.com''\<rparr>;
         us = Map_set (uid bob) bob (Map_set (uid alice) alice []) in
     case makeId_m s2 of (i3, s3) \<Rightarrow>
     case makeId_m s3 of (i4, s4) \<Rightarrow>
     case makeId_m s4 of (i5, s5) \<Rightarrow>
       s5\<lparr>users_m := us,
          todos_m := foldl (\<lambda>m t. Map_set (tid t) t m) []
            [\<lparr>tid = i3, userId = JStr (uid alice), title = JStr ''Buy coffee'',
               completed = JBool False\<rparr>,
             \<lparr>tid = i4, userId = JStr (uid alice), title = JStr ''Edit wedding photos'',
               completed = JBool True\<rparr>,
             \<lparr>tid = i5, userId = JStr (uid bob), title = JStr ''Prepare client proposal'',
               completed = JBool False\<rparr>]\<rparr>)"

text \<open>POST /api/users\<close>

definition createUser_m :: "mstore \<Rightarrow> jsval \<Rightarrow> mstore \<times> reply" where
  "createUser_m s body =
    (let nm = body_field body ''name''; em = body_field body ''email'' in
     if \<not> truthy nm \<or> \<not> truthy em then (s, ErrorJson 400 ''name and email are required'')
     else case makeId_m s of (i, s1) \<Rightarrow>
       let u = \<lparr>uid = i, name = nm, email = em\<rparr>
       in (s1\<lparr>users_m := Map_set (uid u) u (users_m s1)\<rparr>, UserJson 201 u))"

text \<open>
  PATCH /api/users/:id. The object \<^verbatim>\<open>users.get(id)\<close> returned is the value of the entry,
  so assigning to its fields changes the entry in place.
\<close>

definition updateUser_m :: "mstore \<Rightarrow> string \<Rightarrow> jsval \<Rightarrow> mstore \<times> reply" where
  "updateUser_m s i body =
    (case Map_get (users_m s) (JStr i) of
       None \<Rightarrow> (s, ErrorJson 404 ''user not found'')
     | Some u \<Rightarrow>
        let nm = body_field body ''name''; em = body_field body ''email'';
            u1 = (if nm \<noteq> JUndefined then u\<lparr>name := nm\<rparr> else u);
            u2 = (if em \<noteq> JUndefined then u1\<lparr>email := em\<rparr> else u1)
        in (s\<lparr>users_m := Map_set i u2 (users_m s)\<rparr>, UserJson 200 u2))"

text \<open>
  DELETE /api/users/:id. The cascade iterates over the entries of \<^verbatim>\<open>todos\<close> and deletes
  the entry it is at when its userId is the deleted id; a Map iterator goes on to the
  next live entry after such a deletion, so every entry is visited once.
\<close>

definition cascade_m :: "string \<Rightarrow> todo jsmap \<Rightarrow> todo jsmap" where
  "cascade_m i m =
     fold (\<lambda>e acc. if strict_equals (userId (snd e)) (JStr i) then Map_delete (fst e) acc else acc)
       m m"

definition deleteUser_m :: "mstore \<Rightarrow> string \<Rightarrow> mstore \<times> reply" where
  "deleteUser_m s i =
    (case Map_get (users_m s) (JStr i) of
       None \<Rightarrow> (s, ErrorJson 404 ''user not found'')
     | Some u \<Rightarrow>
        (s\<lparr>users_m := Map_delete i (users_m s), todos_m := cascade_m i (todos_m s)\<rparr>, OkJson))"

text \<open>GET /api/todos\<close>

definition listTodos_m :: "mstore \<Rightarrow> jsval \<Rightarrow> jsval \<Rightarrow> todo list" where
  "listTodos_m s qUserId qCompleted = filterTodos (Map_values (todos_m s)) qUserId qCompleted"

text \<open>POST /api/todos\<close>

definition createTodo_m :: "mstore \<Rightarrow> jsval \<Rightarrow> mstore \<times> reply" where
  "createTodo_m s body =
    (let uI = body_field body ''userId''; ti = body_field body ''title'';
         co = (let c = body_field body ''completed'' in if c = JUndefined then JBool False else c)
     in
     if \<not> truthy uI \<or> \<not> truthy ti then (s, ErrorJson 400 ''userId and title are required'')
     else if Map_get (users_m s) uI = None then (s, ErrorJson 400 ''invalid userId'')
     else case makeId_m s of (i, s1) \<Rightarrow>
       let t = \<lparr>tid = i, userId = uI, title = ti, completed = JBool (truthy co)\<rparr>
       in (s1\<lparr>todos_m := Map_set (tid t) t (todos_m s1)\<rparr>, TodoJson 201 t))"

text \<open>PATCH /api/todos/:id, with the same order of assignments and lookup as in server.js.\<close>

definition updateTodo_m :: "mstore \<Rightarrow> string \<Rightarrow> jsval \<Rightarrow> mstore \<times> reply" where
  "updateTodo_m s i body =
    (case Map_get (todos_m s) (JStr i) of
       None \<Rightarrow> (s, ErrorJson 404 ''todo not found'')
     | Some t \<Rightarrow>
        let ti = body_field body ''title''; co = body_field body ''completed'';
            uI = body_field body ''userId'';
            t1 = (if ti \<noteq> JUndefined then t\<lparr>title := ti\<rparr> else t);
            t2 = (if co \<noteq> JUndefined then t1\<lparr>completed := JBool (truthy co)\<rparr> else t1)
        in
        if uI \<noteq> JUndefined then
          (if Map_get (users_m s) uI = None
             then (s\<lparr>todos_m := Map_set i t2 (todos_m s)\<rparr>, ErrorJson 400 ''invalid userId'')
           else
             let t3 = t2\<lparr>userId := uI\<rparr>
             in (s\<lparr>todos_m := Map_set i t3 (todos_m s)\<rparr>, TodoJson 200 t3))
        else (s\<lparr>todos_m := Map_set i t2 (todos_m s)\<rparr>, TodoJson 200 t2))"

text \<open>DELETE /api/todos/:id\<close>

definition deleteTodo_m :: "mstore \<Rightarrow> string \<Rightarrow> mstore \<times> reply" where
  "deleteTodo_m s i =
    (case Map_get (todos_m s) (JStr i) of
       None \<Rightarrow> (s, ErrorJson 404 ''todo not found'')
     | Some t \<Rightarrow> (s\<lparr>todos_m := Map_delete i (todos_m s)\<rparr>, OkJson))"

fun handle_m :: "mstore \<Rightarrow> request \<Rightarrow> mstore \<times> reply" where
  "handle_m s (CreateUser b) = createUser_m s b"
| "handle_m s (UpdateUser i b) = updateUser_m s i b"
| "handle_m s (DeleteUser i) = deleteUser_m s i"
| "handle_m s (CreateTodo b) = createTodo_m s b"
| "handle_m s (UpdateTodo i b) = updateTodo_m s i b"
| "handle_m s (DeleteTodo i) = deleteTodo_m s i"

definition run_m :: "mstore \<Rightarrow> request list \<Rightarrow> mstore" where
  "run_m s rs = foldl (\<lambda>s r. fst (handle_m s r)) s rs"

text \<open>
  Every todo of the store names an existing user, and every entry is filed under the id
  of its value.
\<close>

definition integrity_m :: "mstore \<Rightarrow> bool" where
  "integrity_m s =
     (\<forall>t \<in> set (Map_values (todos_m s)). \<exists>u \<in> set (Map_values (users_m s)). userId t = JStr (uid u))"

definition keyed :: "mstore \<Rightarrow> bool" where
  "keyed s = ((\<forall>e \<in> set (users_m s). uid (snd e) = fst e) \<and> (\<forall>e \<in> set (todos_m s). tid (snd e) = fst e))"

definition inv_m :: "mstore \<Rightarrow> bool" where
  "inv_m s =
     (integrity_m s \<and> keyed s \<and> distinct (map fst (users_m s)) \<and> distinct (map fst (todos_m s)))"

text \<open>Every todo of the store has a boolean as its completed flag.\<close>

fun is_boolean :: "jsval \<Rightarrow> bool" where
  "is_boolean (JBool _) = True"
| "is_boolean _ = False"

definition all_boolean :: "store \<Rightarrow> bool" where
  "all_boolean s = (\<forall>t \<in> set (todos s). is_boolean (completed t))"

definition all_boolean_m :: "mstore \<Rightarrow> bool" where
  "all_boolean_m s = (\<forall>t \<in> set (Map_values (todos_m s)). is_boolean (completed t))"

section \<open>Metrics aggregator\<close>

text \<open>
  The numbers the aggregator computes with are IEEE 754 doubles. A finite double is a
  rational; the result of an addition or a division is the exact result rounded to the
  nearest double, a tie going to the even significand, and it is an infinity when it
  rounds beyond the largest double. \<open>bits n\<close> is the number of binary digits of \<open>n\<close>,
  \<open>bexp a\<close> the binary exponent of a positive \<open>a\<close>: \<open>2 powi bexp a \<le> a < 2 powi (bexp a + 1)\<close>.
  A double has 53 significant bits and an exponent of at least -1022, below which the
  spacing of the doubles stays \<open>2 powi (-1074)\<close>. The two zeros are one number here:
  \<^verbatim>\<open>res.json\<close> writes both as 0. The aggregator adds finite numbers to a total that
  starts at 0 and divides by a positive count, so no NaN arises.
\<close>

function bits :: "nat \<Rightarrow> nat" where
  "bits n = (if n = 0 then 0 else bits (n div 2) + 1)"
  by pat_completeness auto
termination
  by (relation "measure (\<lambda>n. n)") auto

declare bits.simps [simp del]

definition bexp :: "rat \<Rightarrow> int" where
  "bexp a = (if 1 \<le> a then int (bits (nat \<lfloor>a\<rfloor>)) - 1
             else - int (bits (nat \<lceil>1 / a\<rceil> - 1)))"

definition round_half_even :: "rat \<Rightarrow> int" where
  "round_half_even x =
     (let f = \<lfloor>x\<rfloor>; d = x - of_int f
      in if d < 1 / 2 then f else if 1 / 2 < d then f + 1 else if even f then f else f + 1)"

definition double_of :: "rat \<Rightarrow> jsnum" where
  "double_of x =
     (if x = 0 then Finite 0
      else
        let a = \<bar>x\<bar>;
            e = max (bexp a) (- 1022);
            q = 2 powi (e - 52);
            r = of_int (round_half_even (a / q)) * q
        in if 2 powi 1024 \<le> r then Infinity (0 < x) else Finite (sgn x * r))"

text \<open>
  \<^verbatim>\<open>totalMs += ms\<close> with a finite \<open>ms\<close>, and \<^verbatim>\<open>totalMs / count\<close> with a positive count.
  An infinite total stays what it is.
\<close>

definition double_add :: "jsnum \<Rightarrow> rat \<Rightarrow> jsnum" where
  "double_add t x = (case t of Finite a \<Rightarrow> double_of (a + x) | Infinity s \<Rightarrow> Infinity s)"

definition double_div :: "jsnum \<Rightarrow> nat \<Rightarrow> jsnum" where
  "double_div t n = (case t of Finite a \<Rightarrow> double_of (a / of_nat n) | Infinity s \<Rightarrow> Infinity s)"

text \<open>
  Durations are differences of \<^verbatim>\<open>performance.now()\<close> readings: finite doubles. Counters are
  natural numbers.
\<close>

record routeStat =
  hits :: nat
  totalMs :: jsnum
  statuses :: "(nat \<times> nat) list"

text \<open>A record of the recent list: \<^verbatim>\<open>{ ts, method, path, status, ms }\<close>.\<close>

record entry =
  e_ts :: string
  e_method :: string
  e_path :: string
  e_status :: nat
  e_ms :: int

text \<open>
  What the \<^verbatim>\<open>finish\<close> callback reads of a completed request: \<^verbatim>\<open>routeKey(req)\<close>, the
  method, \<^verbatim>\<open>req.originalUrl\<close>, \<^verbatim>\<open>res.statusCode\<close>, the elapsed \<^verbatim>\<open>t1 - t0\<close> and the
  clock's \<^verbatim>\<open>new Date().toISOString()\<close>.
\<close>

record finished =
  f_key :: string
  f_method :: string
  f_originalUrl :: string
  f_statusCode :: nat
  f_ms :: rat
  f_now :: string

record metrics =
  startedAt :: string
  totalRequests :: nat
  byRoute :: "(string \<times> routeStat) list"

text \<open>server.js keeps the recent requests in an array.\<close>

record metrics_a = metrics +
  recent :: "entry list"

text \<open>
  The second server file keeps them in \<^verbatim>\<open>new Array(RECENT_SIZE)\<close>, whose slots are empty
  until written, with a write index and a count.
\<close>

record metrics_c = metrics +
  recent_c :: "entry option list"
  recentIndex :: nat
  recentCount :: nat

definition RECENT_SIZE :: nat where
  "RECENT_SIZE = 100"

definition init_a :: "string \<Rightarrow> metrics_a" where
  "init_a now = \<lparr>startedAt = now, totalRequests = 0, byRoute = [], recent = []\<rparr>"

definition init_c :: "string \<Rightarrow> metrics_c" where
  "init_c now = \<lparr>startedAt = now, totalRequests = 0, byRoute = [],
     recent_c = replicate RECENT_SIZE None, recentIndex = 0, recentCount = 0\<rparr>"

text \<open>\<^verbatim>\<open>Math.round\<close>: the nearest integer, a half going up.\<close>

definition Math_round :: "rat \<Rightarrow> int" where
  "Math_round x = \<lfloor>x + 1 / 2\<rfloor>"

text \<open>
  \<^verbatim>\<open>statuses[code] = (statuses[code] || 0) + 1\<close>: an object whose keys are integers lists
  them in ascending order.
\<close>

fun index_set :: "nat \<Rightarrow> 'v \<Rightarrow> (nat \<times> 'v) list \<Rightarrow> (nat \<times> 'v) list" where
  "index_set k v [] = [(k, v)]"
| "index_set k v (e # es) =
     (if fst e = k then (k, v) # es
      else if k < fst e then (k, v) # e # es
      else e # index_set k v es)"

definition bump_status :: "nat \<Rightarrow> (nat \<times> nat) list \<Rightarrow> (nat \<times> nat) list" where
  "bump_status code sts =
     index_set code ((case map_of sts code of None \<Rightarrow> 0 | Some n \<Rightarrow> if n \<noteq> 0 then n else 0) + 1) sts"

text \<open>
  The counters of the \<^verbatim>\<open>finish\<close> callback, the same lines in both files: the entry of
  the route is created on first sight, at the end of the object, and then incremented.
\<close>

definition bump_route :: "finished \<Rightarrow> (string \<times> routeStat) list \<Rightarrow> (string \<times> routeStat) list" where
  "bump_route f br0 =
    (let key = f_key f;
         br = (if map_of br0 key = None
               then assoc_set key \<lparr>hits = 0, totalMs = Finite 0, statuses = []\<rparr> br0
               else br0);
         st = (case map_of br key of
                 None \<Rightarrow> \<lparr>hits = 0, totalMs = Finite 0, statuses = []\<rparr>
               | Some v \<Rightarrow> v);
         st' = st\<lparr>hits := hits st + 1, totalMs := double_add (totalMs st) (f_ms f),
                  statuses := bump_status (f_statusCode f) (statuses st)\<rparr>
     in assoc_set key st' br)"

definition count_request :: "finished \<Rightarrow> 'a metrics_scheme \<Rightarrow> 'a metrics_scheme" where
  "count_request f m =
     m\<lparr>totalRequests := totalRequests m + 1, byRoute := bump_route f (byRoute m)\<rparr>"

definition entry_of :: "finished \<Rightarrow> entry" where
  "entry_of f = \<lparr>e_ts = f_now f, e_method = f_method f, e_path = f_originalUrl f,
     e_status = f_statusCode f, e_ms = Math_round (f_ms f)\<rparr>"

text \<open>server.js: \<^verbatim>\<open>recent.push(e); if (recent.length > 100) recent.shift()\<close>\<close>

definition push_recent :: "entry \<Rightarrow> entry list \<Rightarrow> entry list" where
  "push_recent e r = (let r1 = r @ [e] in if length r1 > 100 then tl r1 else r1)"

definition recordRequest_a :: "metrics_a \<Rightarrow> finished \<Rightarrow> metrics_a" where
  "recordRequest_a m f =
     (let m1 = count_request f m in m1\<lparr>recent := push_recent (entry_of f) (recent m1)\<rparr>)"

text \<open>
  The second file: write at the index, advance it modulo the size, count up to the size.
  Assigning past the end of an array extends it with empty slots.
\<close>

definition Array_set :: "'a option list \<Rightarrow> nat \<Rightarrow> 'a \<Rightarrow> 'a option list" where
  "Array_set a i v =
     (if i < length a then a[i := Some v] else a @ replicate (i - length a) None @ [Some v])"

definition recordRequest_c :: "metrics_c \<Rightarrow> finished \<Rightarrow> metrics_c" where
  "recordRequest_c m f =
     (let m1 = count_request f m;
          m2 = m1\<lparr>recent_c := Array_set (recent_c m1) (recentIndex m1) (entry_of f)\<rparr>;
          m3 = m2\<lparr>recentIndex := (recentIndex m2 + 1) mod RECENT_SIZE\<rparr>
      in if recentCount m3 < RECENT_SIZE then m3\<lparr>recentCount := recentCount m3 + 1\<rparr> else m3)"

subsection \<open>GET /api/_stats\<close>

record routeRow =
  route :: string
  row_count :: nat
  avgMs :: jsnum
  row_statuses :: "(nat \<times> nat) list"

text \<open>
  The snapshot without \<^verbatim>\<open>uptimeSec\<close>, which is read from the process clock and depends on
  nothing the aggregator keeps.
\<close>

record snapshot =
  snap_startedAt :: string
  snap_totalRequests :: nat
  snap_routes :: "routeRow list"
  snap_recent :: "entry list"

text \<open>
  \<^verbatim>\<open>x.toFixed(1)\<close> writes the integer \<open>n\<close> with \<open>n / 10\<close> nearest to the magnitude of \<open>x\<close>, the
  larger one of two, with one decimal and the sign of \<open>x\<close>; \<open>tenth x\<close> is the number
  written. From \<open>10 ^ 21\<close> on, and for an infinity, it writes \<open>x\<close> itself in full. The unary
  \<^verbatim>\<open>+\<close> reads the string back as the nearest double.
\<close>

definition tenth :: "rat \<Rightarrow> rat" where
  "tenth x =
     (if x < 0 then - (of_int \<lfloor>(- x) * 10 + 1 / 2\<rfloor> / 10) else of_int \<lfloor>x * 10 + 1 / 2\<rfloor> / 10)"

definition toFixed1 :: "jsnum \<Rightarrow> jsnum" where
  "toFixed1 v =
     (case v of
        Finite x \<Rightarrow> if 10 ^ 21 \<le> \<bar>x\<bar> then Finite x else double_of (tenth x)
      | Infinity s \<Rightarrow> Infinity s)"

definition row_of :: "string \<times> routeStat \<Rightarrow> routeRow" where
  "row_of e =
     (case e of (r, v) \<Rightarrow>
        \<lparr>route = r, row_count = hits v,
         avgMs = (if hits v \<noteq> 0 then toFixed1 (double_div (totalMs v) (hits v)) else Finite 0),
         row_statuses = statuses v\<rparr>)"

text \<open>
  \<^verbatim>\<open>Array.prototype.sort\<close> with a comparator is stable: \<open>x\<close> stays before a later \<open>y\<close> unless
  \<open>cmp x y > 0\<close>.
\<close>

fun insert_cmp :: "('a \<Rightarrow> 'a \<Rightarrow> int) \<Rightarrow> 'a \<Rightarrow> 'a list \<Rightarrow> 'a list" where
  "insert_cmp cmp x [] = [x]"
| "insert_cmp cmp x (y # ys) = (if cmp x y \<le> 0 then x # y # ys else y # insert_cmp cmp x ys)"

definition sort_cmp :: "('a \<Rightarrow> 'a \<Rightarrow> int) \<Rightarrow> 'a list \<Rightarrow> 'a list" where
  "sort_cmp cmp xs = foldr (insert_cmp cmp) xs []"

definition routes_of :: "'a metrics_scheme \<Rightarrow> routeRow list" where
  "routes_of m = sort_cmp (\<lambda>a b. int (row_count b) - int (row_count a)) (map row_of (byRoute m))"

text \<open>server.js: \<^verbatim>\<open>recent.slice(-20).reverse()\<close>\<close>

definition stats_a :: "metrics_a \<Rightarrow> snapshot" where
  "stats_a m = \<lparr>snap_startedAt = startedAt m, snap_totalRequests = totalRequests m,
     snap_routes = routes_of m, snap_recent = rev (drop (length (recent m) - 20) (recent m))\<rparr>"

text \<open>
  The second file reads the buffer backwards from the write index. \<^verbatim>\<open>a % b\<close> has the sign
  of \<open>a\<close>; reading an index that is no element of the array gives undefined, as an empty
  slot does.
\<close>

definition js_rem :: "int \<Rightarrow> int \<Rightarrow> int" where
  "js_rem a b = (if 0 \<le> a then a mod \<bar>b\<bar> else - ((- a) mod \<bar>b\<bar>))"

definition Array_get :: "'a option list \<Rightarrow> int \<Rightarrow> 'a option" where
  "Array_get a i = (if 0 \<le> i \<and> nat i < length a then a ! nat i else None)"

function read_recent :: "metrics_c \<Rightarrow> nat \<Rightarrow> nat \<Rightarrow> entry list \<Rightarrow> entry list" where
  "read_recent m n i acc =
     (if i < n then
        (let idx = js_rem (int (recentIndex m) - 1 - int i + int RECENT_SIZE) (int RECENT_SIZE)
         in read_recent m n (i + 1)
              (case Array_get (recent_c m) idx of Some item \<Rightarrow> acc @ [item] | None \<Rightarrow> acc))
      else acc)"
  by pat_completeness auto
termination
  by (relation "measure (\<lambda>(m, n, i, acc). n - i)") auto

declare read_recent.simps [simp del]

definition stats_c :: "metrics_c \<Rightarrow> snapshot" where
  "stats_c m =
     (let count = min (recentCount m) RECENT_SIZE
      in \<lparr>snap_startedAt = startedAt m, snap_totalRequests = totalRequests m,
          snap_routes = routes_of m, snap_recent = read_recent m (min 20 count) 0 []\<rparr>)"

text \<open>
  What the ring holds after the records \<open>es\<close> were written to it, oldest first: the
  record of age \<open>j\<close> sits \<open>j + 1\<close> slots behind the write index, and while the ring is
  not full the slots from the write index on are empty.
\<close>

definition ring_inv :: "entry list \<Rightarrow> metrics_c \<Rightarrow> bool" where
  "ring_inv es m =
     (length (recent_c m) = 100 \<and> recentIndex m = length es mod 100 \<and>
      recentCount m = min (length es) 100 \<and>
      (\<forall>j < min (length es) 100.
          recent_c m ! ((length es - 1 - j) mod 100) = Some (es ! (length es - 1 - j))) \<and>
      (\<forall>k. length es \<le> k \<and> k < 100 \<longrightarrow> recent_c m ! k = None))"

text \<open>A run of \<open>n\<close> completed requests, the \<open>i\<close>-th taking \<open>i\<close> milliseconds.\<close>

definition sample_requests :: "nat \<Rightarrow> finished list" where
  "sample_requests n =
     map (\<lambda>i. \<lparr>f_key = ''GET /api/users/:id'', f_method = ''GET'', f_originalUrl = ''/api/users/1'',
               f_statusCode = 200, f_ms = of_nat i, f_now = ''2025-08-27T13:37:00.000Z''\<rparr>) [0..<n]"

section \<open>Access guard\<close>

text \<open>
  \<^verbatim>\<open>process.env.API_KEY || "dev-api-key-change-me"\<close>: an unset or empty variable gives the
  default.
\<close>

definition API_KEY :: "string option \<Rightarrow> string" where
  "API_KEY env = (case env of None \<Rightarrow> ''dev-api-key-change-me''
                  | Some k \<Rightarrow> if k \<noteq> [] then k else ''dev-api-key-change-me'')"

text \<open>
  The regular expression \<^verbatim>\<open>/^ApiKey\s+(.+)$/i\<close> on a header value, whose characters are
  single bytes. Ignoring case, a letter of the scheme matches itself in either case.
  \<^verbatim>\<open>\s\<close> is a tab, line feed, vertical tab, form feed, carriage return, space or
  no-break space; \<^verbatim>\<open>.\<close> is any character but a line feed or carriage return.
\<close>

fun strip_ci :: "(char \<times> char) list \<Rightarrow> string \<Rightarrow> string option" where
  "strip_ci [] s = Some s"
| "strip_ci (p # ps) [] = None"
| "strip_ci (p # ps) (c # cs) = (if c = fst p \<or> c = snd p then strip_ci ps cs else None)"

definition scheme :: "(char \<times> char) list" where
  "scheme = zip ''ApiKey'' ''aPIkEY''"

definition is_space :: "char \<Rightarrow> bool" where
  "is_space c = (c \<in> set [CHR 0x09, CHR 0x0A, CHR 0x0B, CHR 0x0C, CHR 0x0D, CHR 0x20, CHR 0xA0])"

definition is_dot :: "char \<Rightarrow> bool" where
  "is_dot c = (c \<noteq> CHR 0x0A \<and> c \<noteq> CHR 0x0D)"

text \<open>
  \<^verbatim>\<open>\s+\<close> is greedy: it first takes the whole run of spaces and gives characters back one
  at a time until \<^verbatim>\<open>(.+)$\<close> matches what is left; \<open>try_spaces k rest\<close> tries the runs of
  \<open>k\<close>, \<open>k - 1\<close>, ..., 1 spaces and returns the captured group.
\<close>

fun try_spaces :: "nat \<Rightarrow> string \<Rightarrow> string option" where
  "try_spaces 0 rest = None"
| "try_spaces (Suc k) rest =
     (let tok = drop (Suc k) rest
      in if tok \<noteq> [] \<and> list_all is_dot tok then Some tok else try_spaces k rest)"

definition match_ApiKey :: "string \<Rightarrow> string option" where
  "match_ApiKey auth =
     (case strip_ci scheme auth of
        None \<Rightarrow> None
      | Some rest \<Rightarrow> try_spaces (length (takeWhile is_space rest)) rest)"

text \<open>
  The key the middleware goes by: \<^verbatim>\<open>hdr || (m ? m[1] : "")\<close>, where a header that is not
  sent reads as the empty string.
\<close>

definition provided :: "string option \<Rightarrow> string option \<Rightarrow> string" where
  "provided xApiKey authorization =
    (let hdr = (case xApiKey of Some h \<Rightarrow> if h \<noteq> [] then h else [] | None \<Rightarrow> []);
         auth = (case authorization of Some a \<Rightarrow> if a \<noteq> [] then a else [] | None \<Rightarrow> []);
         m = match_ApiKey auth
     in if hdr \<noteq> [] then hdr else (case m of Some g \<Rightarrow> g | None \<Rightarrow> []))"

text \<open>The middleware: \<open>None\<close> is \<^verbatim>\<open>next()\<close>, the request goes on to its handler.\<close>

definition apiKeyRequired :: "string option \<Rightarrow> string option \<Rightarrow> string option \<Rightarrow> reply option" where
  "apiKeyRequired env xApiKey authorization =
    (let p = provided xApiKey authorization
     in if p = [] then Some (ErrorJson 401 ''missing API key'')
        else if p \<noteq> API_KEY env then Some (ErrorJson 401 ''invalid API key'')
        else None)"

text \<open>
  The pattern in words: the header value is the scheme \<^verbatim>\<open>ApiKey\<close> in any case, then one or
  more spaces, then a token that is not empty and has no line break.
\<close>

definition ApiKey_pattern :: "string \<Rightarrow> string \<Rightarrow> bool" where
  "ApiKey_pattern auth tok =
     (\<exists>pre ws. auth = pre @ ws @ tok \<and> list_all2 (\<lambda>p c. c = fst p \<or> c = snd p) scheme pre \<and>
        ws \<noteq> [] \<and> list_all is_space ws \<and> tok \<noteq> [] \<and> list_all is_dot tok)"

section \<open>Properties of the entity store\<close>

subsection \<open>Seed data\<close>

lemma String_of_small: "n < 10 \<Longrightarrow> String_of n = [digit n]"
  by (simp add: String_of.simps)

lemma seed_eq:
  "seed = \<lparr>users = [\<lparr>uid = ''1'', name = JStr ''Alice'', email = JStr ''alice@example.com''\<rparr>,
                     \<lparr>uid = ''2'', name = JStr ''Bob'', email = JStr ''bob@example.com''\<rparr>],
            todos = [\<lparr>tid = ''3'', userId = JStr ''1'', title = JStr ''Buy coffee'',
                       completed = JBool False\<rparr>,
                     \<lparr>tid = ''4'', userId = JStr ''1'', title = JStr ''Edit wedding photos'',
                       completed = JBool True\<rparr>,
                     \<lparr>tid = ''5'', userId = JStr ''2'', title = JStr ''Prepare client proposal'',
                       completed = JBool False\<rparr>],
            nextId = 6\<rparr>"
  by (simp add: seed_def makeId_def String_of_small digit_def)

lemma seed_m_eq:
  "seed_m =
     \<lparr>users_m = [(''1'', \<lparr>uid = ''1'', name = JStr ''Alice'', email = JStr ''alice@example.com''\<rparr>),
                 (''2'', \<lparr>uid = ''2'', name = JStr ''Bob'', email = JStr ''bob@example.com''\<rparr>)],
      todos_m = [(''3'', \<lparr>tid = ''3'', userId = JStr ''1'', title = JStr ''Buy coffee'',
                         completed = JBool False\<rparr>),
                 (''4'', \<lparr>tid = ''4'', userId = JStr ''1'', title = JStr ''Edit wedding photos'',
                         completed = JBool True\<rparr>),
                 (''5'', \<lparr>tid = ''5'', userId = JStr ''2'', title = JStr ''Prepare client proposal'',
                         completed = JBool False\<rparr>)],
      nextId_m = 6\<rparr>"
  by (simp add: seed_m_def makeId_m_def Map_set_def String_of_small digit_def)

subsection \<open>Arrays\<close>

lemma strict_equals_JStr [simp]: "strict_equals v (JStr k) = (v = JStr k)"
  by (cases v) auto

lemma strict_equals_JBool [simp]: "strict_equals v (JBool b) = (v = JBool b)"
  by (cases v) auto

lemma findIndex_ge: "- 1 \<le> findIndex p xs"
  by (induction xs) (auto simp: Let_def)

lemma findIndex_none: "findIndex p xs = - 1 \<longleftrightarrow> (\<forall>x \<in> set xs. \<not> p x)"
proof (induction xs)
  case Nil
  then show ?case by simp
next
  case (Cons x xs)
  have "- 1 \<le> findIndex p xs" by (rule findIndex_ge)
  with Cons show ?case by (auto simp: Let_def)
qed

lemma findIndex_found:
  "findIndex p xs \<noteq> - 1 \<Longrightarrow>
     0 \<le> findIndex p xs \<and> nat (findIndex p xs) < length xs \<and> p (xs ! nat (findIndex p xs))"
proof (induction xs)
  case Nil
  then show ?case by simp
next
  case (Cons x xs)
  show ?case
  proof (cases "p x")
    case True
    then show ?thesis by simp
  next
    case False
    with Cons.prems have ne: "findIndex p xs \<noteq> - 1" by (auto simp: Let_def split: if_splits)
    from Cons.IH [OF ne] False ne show ?thesis
      by (auto simp: Let_def nat_add_distrib)
  qed
qed

lemma set_splice1: "set (splice1 i xs) \<subseteq> set xs"
  by (auto simp: splice1_def dest: in_set_takeD in_set_dropD)

lemma splice1_keeps:
  assumes x: "x \<in> set xs" and ne: "x \<noteq> xs ! i"
  shows "x \<in> set (splice1 i xs)"
proof -
  from x obtain j where j: "j < length xs" "xs ! j = x"
    by (auto simp: in_set_conv_nth)
  with ne have "j \<noteq> i" by auto
  then consider "j < i" | "i < j" by linarith
  then show ?thesis
  proof cases
    case 1
    with j have "take i xs ! j = x" "j < length (take i xs)" by simp_all
    then have "x \<in> set (take i xs)" by (metis nth_mem)
    then show ?thesis by (simp add: splice1_def)
  next
    case 2
    with j have "drop (Suc i) xs ! (j - Suc i) = x" "j - Suc i < length (drop (Suc i) xs)"
      by simp_all
    then have "x \<in> set (drop (Suc i) xs)" by (metis nth_mem)
    then show ?thesis by (simp add: splice1_def)
  qed
qed

lemma set_assign_first: "set (assign_first p y xs) \<subseteq> insert y (set xs)"
  by (induction xs) auto

lemma map_assign_first:
  "(\<And>x. x \<in> set xs \<Longrightarrow> p x \<Longrightarrow> f x = f y) \<Longrightarrow> map f (assign_first p y xs) = map f xs"
  by (induction xs) auto

lemma cascade_filter:
  "k \<le> length tds \<Longrightarrow>
     cascade rid tds k = filter (\<lambda>t. userId t \<noteq> JStr rid) (take k tds) @ drop k tds"
proof (induction k arbitrary: tds)
  case 0
  then show ?case by simp
next
  case (Suc k)
  then have k: "k < length tds" by simp
  show ?case
  proof (cases "userId (tds ! k) = JStr rid")
    case True
    have "cascade rid tds (Suc k) = cascade rid (splice1 k tds) k"
      using True by simp
    also have "\<dots> = filter (\<lambda>t. userId t \<noteq> JStr rid) (take k (splice1 k tds)) @ drop k (splice1 k tds)"
      using k by (intro Suc.IH) (simp add: splice1_def)
    also have "take k (splice1 k tds) = take k tds"
      using k by (simp add: splice1_def)
    also have "drop k (splice1 k tds) = drop (Suc k) tds"
      using k by (simp add: splice1_def)
    finally show ?thesis
      using True k by (simp add: take_Suc_conv_app_nth)
  next
    case False
    have "cascade rid tds (Suc k) = cascade rid tds k"
      using False by simp
    also have "\<dots> = filter (\<lambda>t. userId t \<noteq> JStr rid) (take k tds) @ drop k tds"
      using k by (intro Suc.IH) simp
    finally show ?thesis
      using False k by (simp add: take_Suc_conv_app_nth Cons_nth_drop_Suc)
  qed
qed

lemma cascade_all:
  "cascade rid tds (length tds) = filter (\<lambda>t. userId t \<noteq> JStr rid) tds"
  using cascade_filter [of "length tds" tds rid] by simp

subsection \<open>Referential integrity of the array store\<close>

lemma integrity_alt:
  "integrity s \<longleftrightarrow> (\<forall>t \<in> set (todos s). userId t \<in> JStr ` set (map uid (users s)))"
  by (auto simp: integrity_def)

lemma integrity_seed: "integrity seed"
  by (simp add: integrity_def seed_eq)

lemma integrity_createUser: "integrity s \<Longrightarrow> integrity (fst (createUser s b))"
  by (auto simp: integrity_def createUser_def makeId_def Let_def)

lemma integrity_updateUser:
  assumes "integrity s"
  shows "integrity (fst (updateUser s i b))"
proof (cases "find (\<lambda>u. uid u = i) (users s)")
  case None
  with assms show ?thesis by (simp add: updateUser_def)
next
  case (Some u)
  then have u: "uid u = i" by (auto simp: find_Some_iff)
  define nm where "nm = body_field b ''name''"
  define em where "em = body_field b ''email''"
  define u1 where "u1 = (if nm \<noteq> JUndefined then u\<lparr>name := nm\<rparr> else u)"
  define u2 where "u2 = (if em \<noteq> JUndefined then u1\<lparr>email := em\<rparr> else u1)"
  have u2: "uid u2 = i" using u by (simp add: u2_def u1_def)
  have st: "fst (updateUser s i b) = s\<lparr>users := assign_first (\<lambda>u. uid u = i) u2 (users s)\<rparr>"
    using Some by (simp add: updateUser_def Let_def nm_def em_def u1_def u2_def)
  have "map uid (assign_first (\<lambda>u. uid u = i) u2 (users s)) = map uid (users s)"
    by (rule map_assign_first) (simp add: u2)
  with assms show ?thesis
    unfolding integrity_alt st by simp
qed

lemma deleteUser_found:
  assumes "findIndex (\<lambda>u. uid u = i) (users s) \<noteq> - 1"
  shows "deleteUser s i =
    (s\<lparr>users := splice1 (nat (findIndex (\<lambda>u. uid u = i) (users s))) (users s),
       todos := filter (\<lambda>t. userId t \<noteq> JStr i) (todos s)\<rparr>, OkJson)"
proof -
  from findIndex_found [OF assms] have "uid (users s ! nat (findIndex (\<lambda>u. uid u = i) (users s))) = i"
    by simp
  with assms show ?thesis
    by (simp add: deleteUser_def Let_def cascade_all)
qed

lemma deleteUser_missing:
  "findIndex (\<lambda>u. uid u = i) (users s) = - 1 \<Longrightarrow>
     deleteUser s i = (s, ErrorJson 404 ''user not found'')"
  by (simp add: deleteUser_def)

lemma integrity_deleteUser:
  assumes "integrity s"
  shows "integrity (fst (deleteUser s i))"
proof (cases "findIndex (\<lambda>u. uid u = i) (users s) = - 1")
  case True
  with assms show ?thesis by (simp add: deleteUser_missing)
next
  case False
  define k where "k = nat (findIndex (\<lambda>u. uid u = i) (users s))"
  define s' where "s' = fst (deleteUser s i)"
  from findIndex_found [OF False] have k: "uid (users s ! k) = i"
    by (simp add: k_def)
  have us: "users s' = splice1 k (users s)"
    and tds: "todos s' = filter (\<lambda>t. userId t \<noteq> JStr i) (todos s)"
    by (simp_all add: s'_def deleteUser_found [OF False] k_def)
  have "\<exists>u \<in> set (users s'). userId t = JStr (uid u)" if "t \<in> set (todos s')" for t
  proof -
    from that have t: "t \<in> set (todos s)" "userId t \<noteq> JStr i"
      by (simp_all add: tds)
    with assms obtain u where u: "u \<in> set (users s)" "userId t = JStr (uid u)"
      by (auto simp: integrity_def)
    with t k have "u \<noteq> users s ! k" by auto
    with u have "u \<in> set (users s')" by (simp add: us splice1_keeps)
    with u show ?thesis by blast
  qed
  then show ?thesis
    by (simp add: integrity_def s'_def)
qed

lemma integrity_createTodo: "integrity s \<Longrightarrow> integrity (fst (createTodo s b))"
  by (auto simp: integrity_def createTodo_def makeId_def Let_def find_None_iff) metis+

lemma integrity_updateTodo:
  assumes "integrity s"
  shows "integrity (fst (updateTodo s i b))"
proof (cases "find (\<lambda>t. tid t = i) (todos s)")
  case None
  with assms show ?thesis by (simp add: updateTodo_def)
next
  case (Some t)
  then have t: "t \<in> set (todos s)" by (auto simp: find_Some_iff nth_mem)
  with assms obtain u where u: "u \<in> set (users s)" "userId t = JStr (uid u)"
    by (auto simp: integrity_def)
  have sub: "\<And>y x. x \<in> set (assign_first (\<lambda>t. tid t = i) y (todos s)) \<Longrightarrow> x = y \<or> x \<in> set (todos s)"
    using set_assign_first by fastforce
  show ?thesis
    using Some assms u
    by (auto simp: updateTodo_def Let_def integrity_def find_None_iff dest!: sub) metis+
qed

lemma integrity_deleteTodo: "integrity s \<Longrightarrow> integrity (fst (deleteTodo s i))"
  using set_splice1 by (fastforce simp: integrity_def deleteTodo_def Let_def)

lemma integrity_handle: "integrity s \<Longrightarrow> integrity (fst (handle s r))"
  by (cases r)
    (simp_all add: integrity_createUser integrity_updateUser integrity_deleteUser
       integrity_createTodo integrity_updateTodo integrity_deleteTodo)

lemma integrity_run: "integrity s \<Longrightarrow> integrity (run s rs)"
  unfolding run_def
  by (induction rs arbitrary: s) (simp_all add: integrity_handle)

subsection \<open>Maps\<close>

lemma Map_get_JStr [simp]: "Map_get m (JStr k) = map_of m k"
  by (simp add: Map_get_def)

lemma Map_get_Some: "Map_get m v = Some x \<Longrightarrow> \<exists>k. v = JStr k \<and> (k, x) \<in> set m"
  by (cases v) (auto simp: Map_get_def dest: map_of_SomeD)

lemma set_assoc_set: "set (assoc_set k v m) \<subseteq> insert (k, v) (set m)"
  by (induction m) auto

lemma assoc_set_image:
  "(\<And>e. e \<in> set m \<Longrightarrow> f (snd e) = fst e) \<Longrightarrow> f v = k \<Longrightarrow>
     (\<lambda>e. f (snd e)) ` set (assoc_set k v m) = insert k ((\<lambda>e. f (snd e)) ` set m)"
  by (induction m) auto

lemma assoc_set_keys: "set (map fst (assoc_set k v m)) = insert k (set (map fst m))"
  by (induction m) auto

lemma distinct_assoc_set: "distinct (map fst m) \<Longrightarrow> distinct (map fst (assoc_set k v m))"
proof (induction m)
  case Nil
  then show ?case by simp
next
  case (Cons e m)
  have "set (map fst (assoc_set k v m)) = insert k (set (map fst m))"
    by (rule assoc_set_keys)
  with Cons show ?case by auto
qed

lemma distinct_Map_delete: "distinct (map fst m) \<Longrightarrow> distinct (map fst (Map_delete k m))"
  by (simp add: Map_delete_def distinct_map_filter)

lemma fold_delete:
  "fold (\<lambda>e acc. if P e then Map_delete (fst e) acc else acc) xs acc =
     filter (\<lambda>e. \<forall>x \<in> set xs. P x \<longrightarrow> fst x \<noteq> fst e) acc"
proof (induction xs arbitrary: acc)
  case Nil
  then show ?case by simp
next
  case (Cons x xs)
  show ?case
  proof (cases "P x")
    case True
    have "fold (\<lambda>e acc. if P e then Map_delete (fst e) acc else acc) (x # xs) acc =
          filter (\<lambda>e. \<forall>y \<in> set xs. P y \<longrightarrow> fst y \<noteq> fst e) (Map_delete (fst x) acc)"
      using True Cons.IH [of "Map_delete (fst x) acc"] by simp
    also have "\<dots> = filter (\<lambda>e. fst e \<noteq> fst x \<and> (\<forall>y \<in> set xs. P y \<longrightarrow> fst y \<noteq> fst e)) acc"
      by (simp add: Map_delete_def conj_commute)
    also have "\<dots> = filter (\<lambda>e. \<forall>y \<in> set (x # xs). P y \<longrightarrow> fst y \<noteq> fst e) acc"
    proof (rule filter_cong [OF refl])
      fix e
      show "(fst e \<noteq> fst x \<and> (\<forall>y \<in> set xs. P y \<longrightarrow> fst y \<noteq> fst e)) =
            (\<forall>y \<in> set (x # xs). P y \<longrightarrow> fst y \<noteq> fst e)"
        using True by auto
    qed
    finally show ?thesis .
  next
    case False
    have "fold (\<lambda>e acc. if P e then Map_delete (fst e) acc else acc) (x # xs) acc =
          filter (\<lambda>e. \<forall>y \<in> set xs. P y \<longrightarrow> fst y \<noteq> fst e) acc"
      using False Cons.IH [of acc] by simp
    also have "\<dots> = filter (\<lambda>e. \<forall>y \<in> set (x # xs). P y \<longrightarrow> fst y \<noteq> fst e) acc"
    proof (rule filter_cong [OF refl])
      fix e
      show "(\<forall>y \<in> set xs. P y \<longrightarrow> fst y \<noteq> fst e) =
            (\<forall>y \<in> set (x # xs). P y \<longrightarrow> fst y \<noteq> fst e)"
        using False by auto
    qed
    finally show ?thesis .
  qed
qed

lemma cascade_m_general:
  "cascade_m i m =
     filter (\<lambda>e. \<forall>x \<in> set m. userId (snd x) = JStr i \<longrightarrow> fst x \<noteq> fst e) m"
  unfolding cascade_m_def by (simp add: fold_delete)

lemma cascade_m_removes: "e \<in> set (cascade_m i m) \<Longrightarrow> e \<in> set m \<and> userId (snd e) \<noteq> JStr i"
  by (auto simp: cascade_m_general)

lemma cascade_m_filter:
  assumes "distinct (map fst m)"
  shows "cascade_m i m = filter (\<lambda>e. userId (snd e) \<noteq> JStr i) m"
  unfolding cascade_m_general
proof (rule filter_cong [OF refl])
  fix e assume e: "e \<in> set m"
  have "x = e" if "x \<in> set m" "fst x = fst e" for x
    using assms e that by (metis eq_key_imp_eq_value prod.collapse)
  with e show "(\<forall>x \<in> set m. userId (snd x) = JStr i \<longrightarrow> fst x \<noteq> fst e) = (userId (snd e) \<noteq> JStr i)"
    by auto
qed

subsection \<open>Referential integrity of the Map store\<close>

lemma integrity_m_alt:
  "integrity_m s \<longleftrightarrow>
     (\<forall>e \<in> set (todos_m s). \<exists>x \<in> set (users_m s). userId (snd e) = JStr (uid (snd x)))"
  by (simp add: integrity_m_def Map_values_def)

lemma keyed_assoc_set:
  "(\<forall>e \<in> set m. f (snd e) = fst e) \<Longrightarrow> f v = k \<Longrightarrow> \<forall>e \<in> set (assoc_set k v m). f (snd e) = fst e"
  using set_assoc_set [of k v m] by auto

lemma inv_m_seed: "inv_m seed_m"
  by (simp add: inv_m_def integrity_m_def keyed_def Map_values_def seed_m_eq)

lemma inv_m_users_set:
  assumes inv: "inv_m s" and k: "uid u = k"
    and us: "users_m s' = Map_set k u (users_m s)" and tds: "todos_m s' = todos_m s"
  shows "inv_m s'"
proof -
  from inv have key: "\<And>e. e \<in> set (users_m s) \<Longrightarrow> uid (snd e) = fst e"
    by (simp add: inv_m_def keyed_def)
  have img: "(\<lambda>e. uid (snd e)) ` set (users_m s') = insert k ((\<lambda>e. uid (snd e)) ` set (users_m s))"
    unfolding us Map_set_def using key k by (rule assoc_set_image)
  have "\<exists>x \<in> set (users_m s'). userId (snd e) = JStr (uid (snd x))" if "e \<in> set (todos_m s')" for e
  proof -
    from that inv obtain x where x: "x \<in> set (users_m s)" "userId (snd e) = JStr (uid (snd x))"
      by (auto simp: tds inv_m_def integrity_m_alt)
    then have "uid (snd x) \<in> (\<lambda>e. uid (snd e)) ` set (users_m s')"
      unfolding img by simp
    with x show ?thesis by auto
  qed
  moreover have "\<forall>e \<in> set (users_m s'). uid (snd e) = fst e"
    unfolding us Map_set_def using key k by (intro keyed_assoc_set) simp_all
  moreover have "distinct (map fst (users_m s'))"
    using inv by (simp add: us Map_set_def inv_m_def distinct_assoc_set)
  ultimately show ?thesis
    using inv by (simp add: inv_m_def integrity_m_alt keyed_def tds)
qed

lemma inv_m_todos_set:
  assumes inv: "inv_m s" and k: "tid t = k"
    and ref: "\<exists>x \<in> set (users_m s). userId t = JStr (uid (snd x))"
    and us: "users_m s' = users_m s" and tds: "todos_m s' = Map_set k t (todos_m s)"
  shows "inv_m s'"
proof -
  have sub: "set (todos_m s') \<subseteq> insert (k, t) (set (todos_m s))"
    unfolding tds Map_set_def by (rule set_assoc_set)
  have "\<forall>e \<in> set (todos_m s'). tid (snd e) = fst e"
    unfolding tds Map_set_def using inv k by (intro keyed_assoc_set) (simp_all add: inv_m_def keyed_def)
  moreover have "\<exists>x \<in> set (users_m s'). userId (snd e) = JStr (uid (snd x))"
    if "e \<in> set (todos_m s')" for e
  proof -
    from that sub have "e = (k, t) \<or> e \<in> set (todos_m s)" by auto
    then show ?thesis
    proof
      assume "e = (k, t)"
      with ref show ?thesis by (simp add: us)
    next
      assume "e \<in> set (todos_m s)"
      with inv show ?thesis by (simp add: us inv_m_def integrity_m_alt)
    qed
  qed
  moreover have "distinct (map fst (todos_m s'))"
    using inv by (simp add: tds Map_set_def inv_m_def distinct_assoc_set)
  ultimately show ?thesis
    using inv by (simp add: inv_m_def integrity_m_alt keyed_def us)
qed

lemma Map_get_known:
  assumes "inv_m s" and "Map_get (users_m s) v \<noteq> None"
  shows "\<exists>x \<in> set (users_m s). v = JStr (uid (snd x))"
proof -
  from assms(2) obtain y where "Map_get (users_m s) v = Some y" by auto
  then obtain k where k: "v = JStr k" "(k, y) \<in> set (users_m s)"
    by (auto dest: Map_get_Some)
  with assms(1) have "uid y = k" by (auto simp: inv_m_def keyed_def)
  with k show ?thesis by force
qed

lemma inv_m_createUser:
  assumes "inv_m s"
  shows "inv_m (fst (createUser_m s b))"
proof (cases "\<not> truthy (body_field b ''name'') \<or> \<not> truthy (body_field b ''email'')")
  case True
  with assms show ?thesis by (auto simp: createUser_m_def Let_def)
next
  case False
  define u where "u = \<lparr>uid = String_of (nextId_m s), name = body_field b ''name'',
    email = body_field b ''email''\<rparr>"
  show ?thesis
  proof (rule inv_m_users_set [OF assms, of u "String_of (nextId_m s)"])
    show "uid u = String_of (nextId_m s)" by (simp add: u_def)
    show "users_m (fst (createUser_m s b)) = Map_set (String_of (nextId_m s)) u (users_m s)"
      using False by (simp add: createUser_m_def Let_def makeId_m_def u_def)
    show "todos_m (fst (createUser_m s b)) = todos_m s"
      using False by (simp add: createUser_m_def Let_def makeId_m_def)
  qed
qed

lemma inv_m_updateUser:
  assumes "inv_m s"
  shows "inv_m (fst (updateUser_m s i b))"
proof (cases "map_of (users_m s) i")
  case None
  with assms show ?thesis by (simp add: updateUser_m_def)
next
  case (Some u)
  then have "(i, u) \<in> set (users_m s)" by (rule map_of_SomeD)
  with assms have u: "uid u = i" by (auto simp: inv_m_def keyed_def)
  define u1 where "u1 = (if body_field b ''name'' \<noteq> JUndefined then u\<lparr>name := body_field b ''name''\<rparr> else u)"
  define u2 where "u2 = (if body_field b ''email'' \<noteq> JUndefined then u1\<lparr>email := body_field b ''email''\<rparr> else u1)"
  show ?thesis
  proof (rule inv_m_users_set [OF assms, of u2 i])
    show "uid u2 = i" using u by (simp add: u2_def u1_def)
    show "users_m (fst (updateUser_m s i b)) = Map_set i u2 (users_m s)"
      using Some by (simp add: updateUser_m_def Let_def u2_def u1_def)
    show "todos_m (fst (updateUser_m s i b)) = todos_m s"
      using Some by (simp add: updateUser_m_def Let_def)
  qed
qed

lemma inv_m_deleteUser:
  assumes "inv_m s"
  shows "inv_m (fst (deleteUser_m s i))"
proof (cases "map_of (users_m s) i")
  case None
  with assms show ?thesis by (simp add: deleteUser_m_def)
next
  case (Some u)
  define s' where "s' = fst (deleteUser_m s i)"
  have us: "users_m s' = Map_delete i (users_m s)" and tds: "todos_m s' = cascade_m i (todos_m s)"
    using Some by (simp_all add: deleteUser_m_def s'_def)
  have "\<exists>x \<in> set (users_m s'). userId (snd e) = JStr (uid (snd x))"
    if "e \<in> set (todos_m s')" for e
  proof -
    from that have e: "e \<in> set (todos_m s)" "userId (snd e) \<noteq> JStr i"
      by (auto simp: tds dest: cascade_m_removes)
    with assms obtain x where x: "x \<in> set (users_m s)" "userId (snd e) = JStr (uid (snd x))"
      by (auto simp: inv_m_def integrity_m_alt)
    with assms have "uid (snd x) = fst x" by (simp add: inv_m_def keyed_def)
    with e x have "x \<in> set (users_m s')" by (auto simp: us Map_delete_def)
    with x show ?thesis by auto
  qed
  moreover have "set (users_m s') \<subseteq> set (users_m s)" "set (todos_m s') \<subseteq> set (todos_m s)"
    by (auto simp: us tds Map_delete_def dest: cascade_m_removes)
  moreover have "distinct (map fst (users_m s'))" "distinct (map fst (todos_m s'))"
    using assms
    by (simp_all add: us tds inv_m_def distinct_Map_delete cascade_m_general distinct_map_filter)
  ultimately show ?thesis
    using assms unfolding s'_def [symmetric] by (auto simp: inv_m_def integrity_m_alt keyed_def)
qed

lemma inv_m_createTodo:
  assumes "inv_m s"
  shows "inv_m (fst (createTodo_m s b))"
proof (cases "snd (createTodo_m s b) = TodoJson 201
    \<lparr>tid = String_of (nextId_m s), userId = body_field b ''userId'', title = body_field b ''title'',
     completed = JBool (truthy (if body_field b ''completed'' = JUndefined then JBool False
       else body_field b ''completed''))\<rparr>")
  case False
  with assms show ?thesis
    by (auto simp: createTodo_m_def Let_def makeId_m_def split: if_splits)
next
  case True
  define t where "t = \<lparr>tid = String_of (nextId_m s), userId = body_field b ''userId'',
     title = body_field b ''title'',
     completed = JBool (truthy (if body_field b ''completed'' = JUndefined then JBool False
       else body_field b ''completed''))\<rparr>"
  from True have ok: "truthy (body_field b ''userId'')" "truthy (body_field b ''title'')"
    "Map_get (users_m s) (body_field b ''userId'') \<noteq> None"
    by (auto simp: createTodo_m_def Let_def makeId_m_def split: if_splits)
  show ?thesis
  proof (rule inv_m_todos_set [OF assms, of t "String_of (nextId_m s)"])
    show "tid t = String_of (nextId_m s)" by (simp add: t_def)
    show "\<exists>x \<in> set (users_m s). userId t = JStr (uid (snd x))"
      using Map_get_known [OF assms ok(3)] by (simp add: t_def)
    show "users_m (fst (createTodo_m s b)) = users_m s"
      using ok by (auto simp: createTodo_m_def Let_def makeId_m_def)
    show "todos_m (fst (createTodo_m s b)) = Map_set (String_of (nextId_m s)) t (todos_m s)"
      using ok by (auto simp: createTodo_m_def Let_def makeId_m_def t_def)
  qed
qed

lemma inv_m_updateTodo:
  assumes "inv_m s"
  shows "inv_m (fst (updateTodo_m s i b))"
proof (cases "map_of (todos_m s) i")
  case None
  with assms show ?thesis by (simp add: updateTodo_m_def)
next
  case (Some t)
  then have mem: "(i, t) \<in> set (todos_m s)" by (rule map_of_SomeD)
  with assms have t: "tid t = i" by (auto simp: inv_m_def keyed_def)
  from assms have "\<forall>e \<in> set (todos_m s). \<exists>x \<in> set (users_m s). userId (snd e) = JStr (uid (snd x))"
    by (simp add: inv_m_def integrity_m_alt)
  from bspec [OF this mem] have old: "\<exists>x \<in> set (users_m s). userId t = JStr (uid (snd x))"
    by simp
  define t1 where "t1 = (if body_field b ''title'' \<noteq> JUndefined then t\<lparr>title := body_field b ''title''\<rparr> else t)"
  define t2 where "t2 = (if body_field b ''completed'' \<noteq> JUndefined
    then t1\<lparr>completed := JBool (truthy (body_field b ''completed''))\<rparr> else t1)"
  define t3 where "t3 = (if body_field b ''userId'' \<noteq> JUndefined
      \<and> Map_get (users_m s) (body_field b ''userId'') \<noteq> None
    then t2\<lparr>userId := body_field b ''userId''\<rparr> else t2)"
  show ?thesis
  proof (rule inv_m_todos_set [OF assms, of t3 i])
    show "tid t3 = i" using t by (simp add: t3_def t2_def t1_def)
    show "\<exists>x \<in> set (users_m s). userId t3 = JStr (uid (snd x))"
      using old Map_get_known [OF assms, of "body_field b ''userId''"]
      by (simp add: t3_def t2_def t1_def)
    show "users_m (fst (updateTodo_m s i b)) = users_m s"
      using Some by (simp add: updateTodo_m_def Let_def)
    show "todos_m (fst (updateTodo_m s i b)) = Map_set i t3 (todos_m s)"
      using Some by (simp add: updateTodo_m_def Let_def t3_def t2_def t1_def)
  qed
qed

lemma inv_m_todos_filter:
  assumes inv: "inv_m s" and us: "users_m s' = users_m s"
    and tds: "todos_m s' = filter P (todos_m s)"
  shows "inv_m s'"
proof -
  have "integrity_m s'"
    using inv by (simp add: inv_m_def integrity_m_alt us tds)
  moreover have "keyed s'"
    using inv by (simp add: inv_m_def keyed_def us tds)
  moreover have "distinct (map fst (todos_m s'))"
    using inv by (simp add: inv_m_def tds distinct_map_filter)
  ultimately show ?thesis
    using inv by (simp add: inv_m_def us)
qed

lemma inv_m_deleteTodo:
  assumes "inv_m s"
  shows "inv_m (fst (deleteTodo_m s i))"
proof (cases "map_of (todos_m s) i")
  case None
  with assms show ?thesis by (simp add: deleteTodo_m_def)
next
  case (Some t)
  show ?thesis
  proof (rule inv_m_todos_filter [OF assms])
    show "users_m (fst (deleteTodo_m s i)) = users_m s"
      using Some by (simp add: deleteTodo_m_def)
    show "todos_m (fst (deleteTodo_m s i)) = filter (\<lambda>e. fst e \<noteq> i) (todos_m s)"
      using Some by (simp add: deleteTodo_m_def Map_delete_def)
  qed
qed

lemma inv_m_handle: "inv_m s \<Longrightarrow> inv_m (fst (handle_m s r))"
  by (cases r)
    (simp_all add: inv_m_createUser inv_m_updateUser inv_m_deleteUser
       inv_m_createTodo inv_m_updateTodo inv_m_deleteTodo)

lemma inv_m_run: "inv_m s \<Longrightarrow> inv_m (run_m s rs)"
  unfolding run_m_def
  by (induction rs arbitrary: s) (simp_all add: inv_m_handle)

text \<open>
  Claim C1. Referential integrity: after any sequence of createUser, updateUser,
  deleteUser, createTodo, updateTodo and deleteTodo requests run from the seed data, every
  todo of the store has the id of a user of the store as its userId, in the array store of
  server.js and in the Map store of the second file alike. A deleteUser that succeeds
  leaves exactly the todos whose userId is not the deleted id, in the same operation.
\<close>

theorem referential_integrity:
  "integrity (run seed rs) \<and> integrity_m (run_m seed_m rs) \<and>
   (snd (deleteUser s i) = OkJson \<longrightarrow>
      todos (fst (deleteUser s i)) = filter (\<lambda>t. userId t \<noteq> JStr i) (todos s)) \<and>
   (snd (deleteUser_m (run_m seed_m rs) i) = OkJson \<longrightarrow>
      todos_m (fst (deleteUser_m (run_m seed_m rs) i)) =
        filter (\<lambda>e. userId (snd e) \<noteq> JStr i) (todos_m (run_m seed_m rs)))"
proof (intro conjI impI)
  show "integrity (run seed rs)"
    by (rule integrity_run [OF integrity_seed])
  have inv: "inv_m (run_m seed_m rs)"
    by (rule inv_m_run [OF inv_m_seed])
  then show "integrity_m (run_m seed_m rs)"
    by (simp add: inv_m_def)
  show "todos (fst (deleteUser s i)) = filter (\<lambda>t. userId t \<noteq> JStr i) (todos s)"
    if "snd (deleteUser s i) = OkJson"
  proof (cases "findIndex (\<lambda>u. uid u = i) (users s) = - 1")
    case True
    with that show ?thesis by (simp add: deleteUser_missing)
  next
    case False
    then show ?thesis by (simp add: deleteUser_found)
  qed
  show "todos_m (fst (deleteUser_m (run_m seed_m rs) i)) =
      filter (\<lambda>e. userId (snd e) \<noteq> JStr i) (todos_m (run_m seed_m rs))"
    if "snd (deleteUser_m (run_m seed_m rs) i) = OkJson"
  proof (cases "map_of (users_m (run_m seed_m rs)) i")
    case None
    with that show ?thesis by (simp add: deleteUser_m_def)
  next
    case (Some u)
    from inv have "distinct (map fst (todos_m (run_m seed_m rs)))"
      by (simp add: inv_m_def)
    with Some show ?thesis
      by (simp add: deleteUser_m_def cascade_m_filter)
  qed
qed

theorem referential_integrity_witness:
  "integrity (run seed
     [CreateUser (JObj [(''name'', JStr ''Carol''), (''email'', JStr ''carol@example.com'')]),
      CreateTodo (JObj [(''userId'', JStr ''6''), (''title'', JStr ''Call Alice'')]),
      DeleteUser ''2'']) \<and>
   map tid (todos (run seed
     [CreateUser (JObj [(''name'', JStr ''Carol''), (''email'', JStr ''carol@example.com'')]),
      CreateTodo (JObj [(''userId'', JStr ''6''), (''title'', JStr ''Call Alice'')]),
      DeleteUser ''2''])) = [''3'', ''4'', ''7''] \<and>
   snd (deleteUser seed ''1'') = OkJson \<and>
   map tid (todos (fst (deleteUser seed ''1''))) = [''5''] \<and>
   snd (deleteUser_m (run_m seed_m
     [CreateUser (JObj [(''name'', JStr ''Carol''), (''email'', JStr ''carol@example.com'')]),
      CreateTodo (JObj [(''userId'', JStr ''6''), (''title'', JStr ''Call Alice'')]),
      DeleteUser ''2'']) ''1'') = OkJson \<and>
   map fst (todos_m (fst (deleteUser_m (run_m seed_m
     [CreateUser (JObj [(''name'', JStr ''Carol''), (''email'', JStr ''carol@example.com'')]),
      CreateTodo (JObj [(''userId'', JStr ''6''), (''title'', JStr ''Call Alice'')]),
      DeleteUser ''2'']) ''1''))) = [''7'']"
  using referential_integrity [of
     "[CreateUser (JObj [(''name'', JStr ''Carol''), (''email'', JStr ''carol@example.com'')]),
      CreateTodo (JObj [(''userId'', JStr ''6''), (''title'', JStr ''Call Alice'')]),
      DeleteUser ''2'']" seed "''1''"]
  by (simp add: run_def run_m_def seed_eq seed_m_eq createUser_def createTodo_def deleteUser_def
      createUser_m_def createTodo_m_def deleteUser_m_def body_field_def body_or_empty_def
      makeId_def makeId_m_def String_of_small digit_def Let_def splice1_def Map_set_def
      Map_delete_def cascade_m_def)

subsection \<open>Creating a todo\<close>

lemma createTodo_required:
  "\<not> truthy (body_field b ''userId'') \<or> \<not> truthy (body_field b ''title'') \<Longrightarrow>
     createTodo s b = (s, ErrorJson 400 ''userId and title are required'')"
  by (auto simp: createTodo_def Let_def)

lemma createTodo_invalid:
  assumes "truthy (body_field b ''userId'')" and "truthy (body_field b ''title'')"
    and "\<forall>u \<in> set (users s). body_field b ''userId'' \<noteq> JStr (uid u)"
  shows "createTodo s b = (s, ErrorJson 400 ''invalid userId'')"
proof -
  from assms(3) have "find (\<lambda>u. strict_equals (JStr (uid u)) (body_field b ''userId'')) (users s) = None"
    by (auto simp: find_None_iff)
  with assms(1,2) show ?thesis
    by (simp add: createTodo_def Let_def)
qed

lemma createTodo_m_required:
  "\<not> truthy (body_field b ''userId'') \<or> \<not> truthy (body_field b ''title'') \<Longrightarrow>
     createTodo_m s b = (s, ErrorJson 400 ''userId and title are required'')"
  by (auto simp: createTodo_m_def Let_def)

lemma Map_get_None:
  assumes "\<forall>e \<in> set m. v \<noteq> JStr (fst e)"
  shows "Map_get m v = None"
proof (cases "Map_get m v")
  case None
  then show ?thesis .
next
  case (Some x)
  then obtain k where "v = JStr k" "(k, x) \<in> set m"
    by (auto dest: Map_get_Some)
  with assms show ?thesis by force
qed

lemma createTodo_m_invalid:
  assumes "truthy (body_field b ''userId'')" and "truthy (body_field b ''title'')"
    and "keyed s" and "\<forall>e \<in> set (users_m s). body_field b ''userId'' \<noteq> JStr (uid (snd e))"
  shows "createTodo_m s b = (s, ErrorJson 400 ''invalid userId'')"
proof -
  from assms(3,4) have "\<forall>e \<in> set (users_m s). body_field b ''userId'' \<noteq> JStr (fst e)"
    by (simp add: keyed_def)
  then have "Map_get (users_m s) (body_field b ''userId'') = None"
    by (rule Map_get_None)
  with assms(1,2) show ?thesis
    by (simp add: createTodo_m_def Let_def)
qed

text \<open>
  Claim C8, as the code has it. A createTodo whose userId is truthy (a non-empty string,
  for one) and the id of no user, with a truthy title, answers 400 "invalid userId" and
  leaves the store, so the todos, as they were. A createTodo whose userId or title is
  missing or falsy (undefined, null, the empty string, 0, false) answers 400 "userId and
  title are required", whatever the users are, and leaves the store as it was.
\<close>

theorem createTodo_rejects:
  "(truthy (body_field b ''userId'') \<and> truthy (body_field b ''title'') \<and>
      (\<forall>u \<in> set (users s). body_field b ''userId'' \<noteq> JStr (uid u)) \<longrightarrow>
        createTodo s b = (s, ErrorJson 400 ''invalid userId'')) \<and>
   (truthy (body_field b ''userId'') \<and> truthy (body_field b ''title'') \<and> keyed sm \<and>
      (\<forall>e \<in> set (users_m sm). body_field b ''userId'' \<noteq> JStr (uid (snd e))) \<longrightarrow>
        createTodo_m sm b = (sm, ErrorJson 400 ''invalid userId'')) \<and>
   (\<not> truthy (body_field b ''userId'') \<or> \<not> truthy (body_field b ''title'') \<longrightarrow>
        createTodo s b = (s, ErrorJson 400 ''userId and title are required'') \<and>
        createTodo_m sm b = (sm, ErrorJson 400 ''userId and title are required''))"
  using createTodo_invalid [of b s] createTodo_m_invalid [of b sm]
    createTodo_required [of b s] createTodo_m_required [of b sm]
  by blast

theorem createTodo_rejects_witness:
  "truthy (body_field (JObj [(''userId'', JStr ''99''), (''title'', JStr ''Water plants'')]) ''userId'') \<and>
   truthy (body_field (JObj [(''userId'', JStr ''99''), (''title'', JStr ''Water plants'')]) ''title'') \<and>
   ''99'' \<notin> set (map uid (users seed)) \<and>
   ''99'' \<notin> set (map (\<lambda>e. uid (snd e)) (users_m seed_m)) \<and> keyed seed_m \<and>
   createTodo seed (JObj [(''userId'', JStr ''99''), (''title'', JStr ''Water plants'')]) =
     (seed, ErrorJson 400 ''invalid userId'') \<and>
   createTodo_m seed_m (JObj [(''userId'', JStr ''99''), (''title'', JStr ''Water plants'')]) =
     (seed_m, ErrorJson 400 ''invalid userId'') \<and>
   \<not> truthy (body_field (JObj [(''title'', JStr ''Water plants'')]) ''userId'') \<and>
   createTodo seed (JObj [(''title'', JStr ''Water plants'')]) =
     (seed, ErrorJson 400 ''userId and title are required'') \<and>
   createTodo_m seed_m (JObj [(''title'', JStr ''Water plants'')]) =
     (seed_m, ErrorJson 400 ''userId and title are required'')"
  using createTodo_rejects [of "JObj [(''userId'', JStr ''99''), (''title'', JStr ''Water plants'')]"
      seed seed_m]
    createTodo_rejects [of "JObj [(''title'', JStr ''Water plants'')]" seed seed_m]
  by (simp add: body_field_def body_or_empty_def seed_eq seed_m_eq keyed_def)

text \<open>
  The claim as stated fails at the empty userId: it is the id of no user, the title is not
  empty, and the answer is 400 "userId and title are required", not "invalid userId".
\<close>

theorem createTodo_empty_userId_counterexample:
  "[] \<notin> set (map uid (users seed)) \<and>
   truthy (body_field (JObj [(''userId'', JStr []), (''title'', JStr ''Water plants'')]) ''title'') \<and>
   createTodo seed (JObj [(''userId'', JStr []), (''title'', JStr ''Water plants'')]) =
     (seed, ErrorJson 400 ''userId and title are required'') \<and>
   snd (createTodo seed (JObj [(''userId'', JStr []), (''title'', JStr ''Water plants'')])) \<noteq>
     ErrorJson 400 ''invalid userId'' \<and>
   snd (createTodo_m seed_m (JObj [(''userId'', JStr []), (''title'', JStr ''Water plants'')])) \<noteq>
     ErrorJson 400 ''invalid userId''"
  by (simp add: createTodo_def createTodo_m_def body_field_def body_or_empty_def seed_eq Let_def)

subsection \<open>Listing todos\<close>

lemma filterTodos_eq:
  "filterTodos l qU qC =
     filter (\<lambda>t. (truthy qU \<longrightarrow> strict_equals (userId t) qU) \<and>
                 (qC = JStr ''true'' \<longrightarrow> completed t = JBool True) \<and>
                 (qC = JStr ''false'' \<longrightarrow> completed t = JBool False)) l"
proof -
  have "qC = JUndefined \<or> qC = JStr ''true'' \<or> qC = JStr ''false'' \<or>
      (qC \<noteq> JUndefined \<and> qC \<noteq> JStr ''true'' \<and> qC \<noteq> JStr ''false'')"
    by blast
  then show ?thesis
    by (elim disjE) (auto simp: filterTodos_def Let_def intro!: filter_cong [OF refl])
qed

text \<open>
  Claim C9, as the code has it. listTodos keeps, in insertion order, the todos whose userId
  is exactly the userId parameter when that parameter is given and not empty, and whose
  completed flag is true (false) when the completed parameter is "true" ("false"); an
  empty userId and any other completed value filter nothing. For a store whose todos have
  the completed flags true, false, true in insertion order, completed = "true" returns the
  first and the third, in that order.
\<close>

theorem listTodos_filters:
  "listTodos s qU qC =
     filter (\<lambda>t. (truthy qU \<longrightarrow> strict_equals (userId t) qU) \<and>
                 (qC = JStr ''true'' \<longrightarrow> completed t = JBool True) \<and>
                 (qC = JStr ''false'' \<longrightarrow> completed t = JBool False)) (todos s) \<and>
   listTodos_m sm qU qC =
     filter (\<lambda>t. (truthy qU \<longrightarrow> strict_equals (userId t) qU) \<and>
                 (qC = JStr ''true'' \<longrightarrow> completed t = JBool True) \<and>
                 (qC = JStr ''false'' \<longrightarrow> completed t = JBool False)) (Map_values (todos_m sm)) \<and>
   (todos s = [a, b, c] \<and> completed a = JBool True \<and> completed b = JBool False \<and>
      completed c = JBool True \<longrightarrow> listTodos s JUndefined (JStr ''true'') = [a, c]) \<and>
   (Map_values (todos_m sm) = [a, b, c] \<and> completed a = JBool True \<and> completed b = JBool False \<and>
      completed c = JBool True \<longrightarrow> listTodos_m sm JUndefined (JStr ''true'') = [a, c])"
  by (simp add: listTodos_def listTodos_m_def filterTodos_eq)

theorem listTodos_filters_witness:
  "truthy (JStr ''1'') \<and>
   map tid (listTodos seed (JStr ''1'') (JStr ''false'')) = [''3''] \<and>
   map tid (listTodos_m seed_m (JStr ''1'') (JStr ''false'')) = [''3''] \<and>
   map completed (todos (seed\<lparr>todos := [todos seed ! 1, todos seed ! 0, todos seed ! 1]\<rparr>)) =
     [JBool True, JBool False, JBool True] \<and>
   listTodos (seed\<lparr>todos := [todos seed ! 1, todos seed ! 0, todos seed ! 1]\<rparr>)
       JUndefined (JStr ''true'') = [todos seed ! 1, todos seed ! 1] \<and>
   listTodos_m (seed_m\<lparr>todos_m := [(''4'', todos seed ! 1), (''3'', todos seed ! 0), (''7'', todos seed ! 1)]\<rparr>)
       JUndefined (JStr ''true'') = [todos seed ! 1, todos seed ! 1]"
  using listTodos_filters [of seed "JStr ''1''" "JStr ''false''" seed_m]
    listTodos_filters [of "seed\<lparr>todos := [todos seed ! 1, todos seed ! 0, todos seed ! 1]\<rparr>"
      JUndefined "JStr ''true''"
      "seed_m\<lparr>todos_m := [(''4'', todos seed ! 1), (''3'', todos seed ! 0), (''7'', todos seed ! 1)]\<rparr>"
      "todos seed ! 1" "todos seed ! 0" "todos seed ! 1"]
  by (simp add: seed_eq seed_m_eq Map_values_def)

text \<open>
  The claim as stated fails at the empty userId parameter: no todo has the empty string as
  its userId, and \<^verbatim>\<open>GET /api/todos?userId=\<close> returns every todo.
\<close>

theorem listTodos_empty_userId_counterexample:
  "filter (\<lambda>t. userId t = JStr []) (todos seed) = [] \<and>
   map tid (listTodos seed (JStr []) JUndefined) = [''3'', ''4'', ''5''] \<and>
   map tid (listTodos_m seed_m (JStr []) JUndefined) = [''3'', ''4'', ''5'']"
  by (simp add: listTodos_def listTodos_m_def filterTodos_def seed_eq seed_m_eq Map_values_def)

subsection \<open>Updating a todo\<close>

text \<open>
  Claim C2 at the seed data: a PATCH of todo 3 with a new title, a new completed flag and
  the userId of no user answers 400 "invalid userId", and the todo of the store has the
  new title and the new flag; its userId is the old one. Both stores do so.
\<close>

theorem updateTodo_partial_write:
  "updateTodo seed ''3''
     (JObj [(''title'', JStr ''Changed''), (''completed'', JBool True), (''userId'', JStr ''99'')]) =
     (seed\<lparr>todos := (todos seed)[0 := \<lparr>tid = ''3'', userId = JStr ''1'', title = JStr ''Changed'',
        completed = JBool True\<rparr>]\<rparr>, ErrorJson 400 ''invalid userId'') \<and>
   updateTodo_m seed_m ''3''
     (JObj [(''title'', JStr ''Changed''), (''completed'', JBool True), (''userId'', JStr ''99'')]) =
     (seed_m\<lparr>todos_m := (todos_m seed_m)[0 := (''3'', \<lparr>tid = ''3'', userId = JStr ''1'',
        title = JStr ''Changed'', completed = JBool True\<rparr>)]\<rparr>, ErrorJson 400 ''invalid userId'') \<and>
   todos seed ! 0 = \<lparr>tid = ''3'', userId = JStr ''1'', title = JStr ''Buy coffee'',
        completed = JBool False\<rparr>"
  by (simp add: updateTodo_def updateTodo_m_def body_field_def body_or_empty_def seed_eq seed_m_eq
      Let_def Map_set_def)

subsection \<open>Updating a user\<close>

lemma find_findIndex: "find p xs = Some x \<Longrightarrow> findIndex p xs \<noteq> - 1"
  by (auto simp: findIndex_none find_Some_iff)

lemma assign_first_update:
  "findIndex p xs \<noteq> - 1 \<Longrightarrow> assign_first p y xs = xs[nat (findIndex p xs) := y]"
proof (induction xs)
  case Nil
  then show ?case by simp
next
  case (Cons x xs)
  show ?case
  proof (cases "p x")
    case True
    then show ?thesis by simp
  next
    case False
    with Cons.prems have ne: "findIndex p xs \<noteq> - 1" by (auto simp: Let_def split: if_splits)
    from findIndex_found [OF ne] have "0 \<le> findIndex p xs" by simp
    then have "nat (findIndex p xs + 1) = Suc (nat (findIndex p xs))" by simp
    with Cons.IH [OF ne] False ne show ?thesis
      by (simp add: Let_def)
  qed
qed

lemma assoc_set_assign:
  "map_of m k = Some x \<Longrightarrow> assoc_set k v m = assign_first (\<lambda>e. fst e = k) (k, v) m"
  by (induction m) (auto split: if_splits)

lemma map_of_find: "map_of m k = Some x \<Longrightarrow> find (\<lambda>e. fst e = k) m = Some (k, x)"
  by (induction m) (auto split: if_splits)

lemma createUser_required:
  "\<not> truthy (body_field b ''name'') \<or> \<not> truthy (body_field b ''email'') \<Longrightarrow>
     createUser s b = (s, ErrorJson 400 ''name and email are required'')"
  by (auto simp: createUser_def Let_def)

lemma createUser_m_required:
  "\<not> truthy (body_field b ''name'') \<or> \<not> truthy (body_field b ''email'') \<Longrightarrow>
     createUser_m s b = (s, ErrorJson 400 ''name and email are required'')"
  by (auto simp: createUser_m_def Let_def)

lemma updateUser_found:
  assumes "find (\<lambda>u. uid u = i) (users s) = Some u"
  shows "updateUser s i b =
     (s\<lparr>users := (users s)[nat (findIndex (\<lambda>u. uid u = i) (users s)) :=
          u\<lparr>name := (if body_field b ''name'' = JUndefined then name u else body_field b ''name''),
            email := (if body_field b ''email'' = JUndefined then email u else body_field b ''email'')\<rparr>]\<rparr>,
      UserJson 200
        (u\<lparr>name := (if body_field b ''name'' = JUndefined then name u else body_field b ''name''),
           email := (if body_field b ''email'' = JUndefined then email u else body_field b ''email'')\<rparr>))"
  using assms assign_first_update [OF find_findIndex [OF assms]]
  by (simp add: updateUser_def Let_def)

lemma updateUser_m_found:
  assumes "Map_get (users_m s) (JStr i) = Some u"
  shows "updateUser_m s i b =
     (s\<lparr>users_m := (users_m s)[nat (findIndex (\<lambda>e. fst e = i) (users_m s)) :=
          (i, u\<lparr>name := (if body_field b ''name'' = JUndefined then name u else body_field b ''name''),
            email := (if body_field b ''email'' = JUndefined then email u else body_field b ''email'')\<rparr>)]\<rparr>,
      UserJson 200
        (u\<lparr>name := (if body_field b ''name'' = JUndefined then name u else body_field b ''name''),
           email := (if body_field b ''email'' = JUndefined then email u else body_field b ''email'')\<rparr>))"
proof -
  from assms have m: "map_of (users_m s) i = Some u" by simp
  from map_of_find [OF m] have "findIndex (\<lambda>e. fst e = i) (users_m s) \<noteq> - 1"
    by (rule find_findIndex)
  then show ?thesis
    using m by (simp add: updateUser_m_def Let_def Map_set_def assoc_set_assign [OF m] assign_first_update)
qed

text \<open>
  Claim C6. For an existing user and any payload, updateUser answers 200 with the user
  whose name (email) is the payload's when the payload has the field and the old one when
  it has not; the store differs from the old one in that user only, at its place. The
  empty string is a field like any other, so it is stored, while createUser answers 400
  "name and email are required" to an empty name or email. Both stores do so.
\<close>

theorem updateUser_applies_present_fields:
  "(find (\<lambda>u. uid u = i) (users s) = Some u \<longrightarrow>
      updateUser s i b =
        (s\<lparr>users := (users s)[nat (findIndex (\<lambda>u. uid u = i) (users s)) :=
           u\<lparr>name := (if body_field b ''name'' = JUndefined then name u else body_field b ''name''),
             email := (if body_field b ''email'' = JUndefined then email u else body_field b ''email'')\<rparr>]\<rparr>,
         UserJson 200
           (u\<lparr>name := (if body_field b ''name'' = JUndefined then name u else body_field b ''name''),
              email := (if body_field b ''email'' = JUndefined then email u else body_field b ''email'')\<rparr>))) \<and>
   (Map_get (users_m sm) (JStr i) = Some um \<longrightarrow>
      updateUser_m sm i b =
        (sm\<lparr>users_m := (users_m sm)[nat (findIndex (\<lambda>e. fst e = i) (users_m sm)) :=
           (i, um\<lparr>name := (if body_field b ''name'' = JUndefined then name um else body_field b ''name''),
             email := (if body_field b ''email'' = JUndefined then email um else body_field b ''email'')\<rparr>)]\<rparr>,
         UserJson 200
           (um\<lparr>name := (if body_field b ''name'' = JUndefined then name um else body_field b ''name''),
              email := (if body_field b ''email'' = JUndefined then email um else body_field b ''email'')\<rparr>))) \<and>
   (body_field b ''name'' = JStr [] \<or> body_field b ''email'' = JStr [] \<longrightarrow>
      createUser s b = (s, ErrorJson 400 ''name and email are required'') \<and>
      createUser_m sm b = (sm, ErrorJson 400 ''name and email are required''))"
proof (intro conjI impI)
  assume "body_field b ''name'' = JStr [] \<or> body_field b ''email'' = JStr []"
  then have "\<not> truthy (body_field b ''name'') \<or> \<not> truthy (body_field b ''email'')"
    by auto
  then show "createUser s b = (s, ErrorJson 400 ''name and email are required'')"
    and "createUser_m sm b = (sm, ErrorJson 400 ''name and email are required'')"
    by (rule createUser_required, rule createUser_m_required)
qed (rule updateUser_found updateUser_m_found, assumption)+

theorem updateUser_applies_present_fields_witness:
  "find (\<lambda>u. uid u = ''2'') (users seed) =
     Some \<lparr>uid = ''2'', name = JStr ''Bob'', email = JStr ''bob@example.com''\<rparr> \<and>
   Map_get (users_m seed_m) (JStr ''2'') =
     Some \<lparr>uid = ''2'', name = JStr ''Bob'', email = JStr ''bob@example.com''\<rparr> \<and>
   body_field (JObj [(''name'', JStr [])]) ''name'' = JStr [] \<and>
   body_field (JObj [(''name'', JStr [])]) ''email'' = JUndefined \<and>
   updateUser seed ''2'' (JObj [(''name'', JStr [])]) =
     (seed\<lparr>users := [\<lparr>uid = ''1'', name = JStr ''Alice'', email = JStr ''alice@example.com''\<rparr>,
                      \<lparr>uid = ''2'', name = JStr [], email = JStr ''bob@example.com''\<rparr>]\<rparr>,
      UserJson 200 \<lparr>uid = ''2'', name = JStr [], email = JStr ''bob@example.com''\<rparr>) \<and>
   updateUser_m seed_m ''2'' (JObj [(''name'', JStr [])]) =
     (seed_m\<lparr>users_m := [(''1'', \<lparr>uid = ''1'', name = JStr ''Alice'', email = JStr ''alice@example.com''\<rparr>),
                      (''2'', \<lparr>uid = ''2'', name = JStr [], email = JStr ''bob@example.com''\<rparr>)]\<rparr>,
      UserJson 200 \<lparr>uid = ''2'', name = JStr [], email = JStr ''bob@example.com''\<rparr>) \<and>
   createUser seed (JObj [(''name'', JStr [])]) = (seed, ErrorJson 400 ''name and email are required'') \<and>
   createUser_m seed_m (JObj [(''name'', JStr [])]) =
     (seed_m, ErrorJson 400 ''name and email are required'')"
  using updateUser_applies_present_fields [of "''2''" seed
      "\<lparr>uid = ''2'', name = JStr ''Bob'', email = JStr ''bob@example.com''\<rparr>"
      "JObj [(''name'', JStr [])]" seed_m
      "\<lparr>uid = ''2'', name = JStr ''Bob'', email = JStr ''bob@example.com''\<rparr>"]
  by (simp add: seed_eq seed_m_eq body_field_def body_or_empty_def Let_def)

subsection \<open>The completed flag\<close>

lemma find_assign_first:
  "find p xs = Some x \<Longrightarrow> p y \<Longrightarrow> find p (assign_first p y xs) = Some y"
  by (induction xs) (auto split: if_splits)

lemma map_of_assoc_set: "map_of (assoc_set k v m) = (map_of m)(k \<mapsto> v)"
  by (induction m) (auto simp: fun_eq_iff)

lemma all_boolean_seed: "all_boolean seed"
  by (simp add: all_boolean_def seed_eq)

lemma all_boolean_m_seed: "all_boolean_m seed_m"
  by (simp add: all_boolean_m_def seed_m_eq Map_values_def)

lemma all_boolean_createUser: "all_boolean s \<Longrightarrow> all_boolean (fst (createUser s b))"
  by (auto simp: all_boolean_def createUser_def makeId_def Let_def)

lemma all_boolean_updateUser: "all_boolean s \<Longrightarrow> all_boolean (fst (updateUser s i b))"
  by (auto simp: all_boolean_def updateUser_def Let_def split: option.splits)

lemma all_boolean_deleteUser: "all_boolean s \<Longrightarrow> all_boolean (fst (deleteUser s i))"
  by (cases "findIndex (\<lambda>u. uid u = i) (users s) = - 1")
    (auto simp: all_boolean_def deleteUser_missing deleteUser_found)

lemma all_boolean_createTodo: "all_boolean s \<Longrightarrow> all_boolean (fst (createTodo s b))"
  by (auto simp: all_boolean_def createTodo_def makeId_def Let_def)

lemma all_boolean_updateTodo:
  assumes "all_boolean s"
  shows "all_boolean (fst (updateTodo s i b))"
proof (cases "find (\<lambda>t. tid t = i) (todos s)")
  case None
  with assms show ?thesis by (simp add: updateTodo_def)
next
  case (Some t)
  then have "t \<in> set (todos s)" by (auto simp: find_Some_iff nth_mem)
  with assms have t: "is_boolean (completed t)" by (simp add: all_boolean_def)
  have sub: "\<And>y x. x \<in> set (assign_first (\<lambda>t. tid t = i) y (todos s)) \<Longrightarrow> x = y \<or> x \<in> set (todos s)"
    using set_assign_first by fastforce
  show ?thesis
    using Some assms t
    by (auto simp: updateTodo_def Let_def all_boolean_def dest!: sub)
qed

lemma all_boolean_deleteTodo: "all_boolean s \<Longrightarrow> all_boolean (fst (deleteTodo s i))"
  using set_splice1 by (fastforce simp: all_boolean_def deleteTodo_def Let_def)

lemma all_boolean_handle: "all_boolean s \<Longrightarrow> all_boolean (fst (handle s r))"
  by (cases r)
    (simp_all add: all_boolean_createUser all_boolean_updateUser all_boolean_deleteUser
       all_boolean_createTodo all_boolean_updateTodo all_boolean_deleteTodo)

lemma all_boolean_run: "all_boolean s \<Longrightarrow> all_boolean (run s rs)"
  unfolding run_def
  by (induction rs arbitrary: s) (simp_all add: all_boolean_handle)

lemma all_boolean_m_set:
  assumes "all_boolean_m s" and "is_boolean (completed t)"
    and "todos_m s' = Map_set k t (todos_m s)"
  shows "all_boolean_m s'"
proof -
  have "set (todos_m s') \<subseteq> insert (k, t) (set (todos_m s))"
    unfolding assms(3) Map_set_def by (rule set_assoc_set)
  with assms(1,2) show ?thesis
    by (auto simp: all_boolean_m_def Map_values_def)
qed

lemma all_boolean_m_filter:
  "all_boolean_m s \<Longrightarrow> todos_m s' = filter P (todos_m s) \<Longrightarrow> all_boolean_m s'"
  by (simp add: all_boolean_m_def Map_values_def)

lemma all_boolean_m_same:
  "all_boolean_m s \<Longrightarrow> todos_m s' = todos_m s \<Longrightarrow> all_boolean_m s'"
  by (simp add: all_boolean_m_def)

lemma all_boolean_m_createUser:
  assumes "all_boolean_m s"
  shows "all_boolean_m (fst (createUser_m s b))"
proof -
  have "todos_m (fst (createUser_m s b)) = todos_m s"
    by (simp add: createUser_m_def makeId_m_def Let_def)
  with assms show ?thesis by (rule all_boolean_m_same)
qed

lemma all_boolean_m_updateUser:
  assumes "all_boolean_m s"
  shows "all_boolean_m (fst (updateUser_m s i b))"
proof -
  have "todos_m (fst (updateUser_m s i b)) = todos_m s"
    by (cases "map_of (users_m s) i") (simp_all add: updateUser_m_def Let_def)
  with assms show ?thesis by (rule all_boolean_m_same)
qed

lemma all_boolean_m_deleteUser:
  assumes "all_boolean_m s"
  shows "all_boolean_m (fst (deleteUser_m s i))"
proof (cases "map_of (users_m s) i")
  case None
  with assms show ?thesis by (simp add: deleteUser_m_def)
next
  case (Some u)
  then have "todos_m (fst (deleteUser_m s i)) =
      filter (\<lambda>e. \<forall>x \<in> set (todos_m s). userId (snd x) = JStr i \<longrightarrow> fst x \<noteq> fst e) (todos_m s)"
    by (simp add: deleteUser_m_def cascade_m_general)
  with assms show ?thesis by (rule all_boolean_m_filter)
qed

lemma all_boolean_m_createTodo:
  assumes "all_boolean_m s"
  shows "all_boolean_m (fst (createTodo_m s b))"
proof (cases "\<not> truthy (body_field b ''userId'') \<or> \<not> truthy (body_field b ''title'') \<or>
    Map_get (users_m s) (body_field b ''userId'') = None")
  case True
  then have "todos_m (fst (createTodo_m s b)) = todos_m s"
    by (auto simp: createTodo_m_def Let_def)
  with assms show ?thesis by (rule all_boolean_m_same)
next
  case False
  define t where "t = \<lparr>tid = String_of (nextId_m s), userId = body_field b ''userId'',
     title = body_field b ''title'', completed = JBool (truthy (body_field b ''completed''))\<rparr>"
  have eq: "todos_m (fst (createTodo_m s b)) = Map_set (String_of (nextId_m s)) t (todos_m s)"
    using False by (auto simp: createTodo_m_def Let_def makeId_m_def t_def)
  have bool: "is_boolean (completed t)" by (simp add: t_def)
  show ?thesis
    by (rule all_boolean_m_set [OF assms bool eq])
qed

lemma all_boolean_m_updateTodo:
  assumes "all_boolean_m s"
  shows "all_boolean_m (fst (updateTodo_m s i b))"
proof (cases "map_of (todos_m s) i")
  case None
  with assms show ?thesis by (simp add: updateTodo_m_def)
next
  case (Some t)
  then have "(i, t) \<in> set (todos_m s)" by (rule map_of_SomeD)
  then have "t \<in> set (Map_values (todos_m s))" by (force simp: Map_values_def)
  with assms have t: "is_boolean (completed t)" by (simp add: all_boolean_m_def)
  define t1 where "t1 = (if body_field b ''title'' \<noteq> JUndefined then t\<lparr>title := body_field b ''title''\<rparr> else t)"
  define t2 where "t2 = (if body_field b ''completed'' \<noteq> JUndefined
    then t1\<lparr>completed := JBool (truthy (body_field b ''completed''))\<rparr> else t1)"
  define t3 where "t3 = (if body_field b ''userId'' \<noteq> JUndefined
      \<and> Map_get (users_m s) (body_field b ''userId'') \<noteq> None
    then t2\<lparr>userId := body_field b ''userId''\<rparr> else t2)"
  have eq: "todos_m (fst (updateTodo_m s i b)) = Map_set i t3 (todos_m s)"
    using Some by (simp add: updateTodo_m_def Let_def t3_def t2_def t1_def)
  have bool: "is_boolean (completed t3)"
    using t by (simp add: t3_def t2_def t1_def)
  show ?thesis
    by (rule all_boolean_m_set [OF assms bool eq])
qed

lemma all_boolean_m_deleteTodo:
  assumes "all_boolean_m s"
  shows "all_boolean_m (fst (deleteTodo_m s i))"
proof (cases "map_of (todos_m s) i")
  case None
  with assms show ?thesis by (simp add: deleteTodo_m_def)
next
  case (Some t)
  then have "todos_m (fst (deleteTodo_m s i)) = filter (\<lambda>e. fst e \<noteq> i) (todos_m s)"
    by (simp add: deleteTodo_m_def Map_delete_def)
  with assms show ?thesis by (rule all_boolean_m_filter)
qed

lemma all_boolean_m_handle: "all_boolean_m s \<Longrightarrow> all_boolean_m (fst (handle_m s r))"
  by (cases r)
    (simp_all add: all_boolean_m_createUser all_boolean_m_updateUser all_boolean_m_deleteUser
       all_boolean_m_createTodo all_boolean_m_updateTodo all_boolean_m_deleteTodo)

lemma all_boolean_m_run: "all_boolean_m s \<Longrightarrow> all_boolean_m (run_m s rs)"
  unfolding run_m_def
  by (induction rs arbitrary: s) (simp_all add: all_boolean_m_handle)

lemma createTodo_created:
  assumes "snd (createTodo s b) = TodoJson 201 t"
  shows "completed t = JBool (truthy (body_field b ''completed''))"
    and "todos (fst (createTodo s b)) = todos s @ [t]"
  using assms
  by (auto simp: createTodo_def Let_def makeId_def split: if_splits)

lemma createTodo_m_created:
  assumes "snd (createTodo_m s b) = TodoJson 201 t"
  shows "completed t = JBool (truthy (body_field b ''completed''))"
    and "map_of (todos_m (fst (createTodo_m s b))) (tid t) = Some t"
  using assms
  by (auto simp: createTodo_m_def Let_def makeId_m_def Map_set_def map_of_assoc_set split: if_splits)

lemma updateTodo_completed:
  assumes "find (\<lambda>t. tid t = i) (todos s) \<noteq> None" and "body_field b ''completed'' \<noteq> JUndefined"
  shows "map_option completed (find (\<lambda>t. tid t = i) (todos (fst (updateTodo s i b)))) =
     Some (JBool (truthy (body_field b ''completed'')))"
proof -
  from assms(1) obtain t where t: "find (\<lambda>t. tid t = i) (todos s) = Some t" by auto
  then have i: "tid t = i" by (auto simp: find_Some_iff)
  define t1 where "t1 = (if body_field b ''title'' \<noteq> JUndefined then t\<lparr>title := body_field b ''title''\<rparr> else t)"
  define t2 where "t2 = t1\<lparr>completed := JBool (truthy (body_field b ''completed''))\<rparr>"
  define t3 where "t3 = (if body_field b ''userId'' \<noteq> JUndefined
      \<and> find (\<lambda>u. strict_equals (JStr (uid u)) (body_field b ''userId'')) (users s) \<noteq> None
    then t2\<lparr>userId := body_field b ''userId''\<rparr> else t2)"
  have "todos (fst (updateTodo s i b)) = assign_first (\<lambda>t. tid t = i) t3 (todos s)"
    using t assms(2) by (simp add: updateTodo_def Let_def t3_def t2_def t1_def)
  moreover have "tid t3 = i" using i by (simp add: t3_def t2_def t1_def)
  ultimately have "find (\<lambda>t. tid t = i) (todos (fst (updateTodo s i b))) = Some t3"
    using t by (simp add: find_assign_first)
  then show ?thesis by (simp add: t3_def t2_def)
qed

lemma updateTodo_m_completed:
  assumes "map_of (todos_m s) i \<noteq> None" and "body_field b ''completed'' \<noteq> JUndefined"
  shows "map_option completed (map_of (todos_m (fst (updateTodo_m s i b))) i) =
     Some (JBool (truthy (body_field b ''completed'')))"
proof -
  from assms(1) obtain t where t: "map_of (todos_m s) i = Some t" by auto
  define t1 where "t1 = (if body_field b ''title'' \<noteq> JUndefined then t\<lparr>title := body_field b ''title''\<rparr> else t)"
  define t2 where "t2 = t1\<lparr>completed := JBool (truthy (body_field b ''completed''))\<rparr>"
  define t3 where "t3 = (if body_field b ''userId'' \<noteq> JUndefined
      \<and> Map_get (users_m s) (body_field b ''userId'') \<noteq> None
    then t2\<lparr>userId := body_field b ''userId''\<rparr> else t2)"
  have "todos_m (fst (updateTodo_m s i b)) = Map_set i t3 (todos_m s)"
    using t assms(2) by (simp add: updateTodo_m_def Let_def t3_def t2_def t1_def)
  then have "map_of (todos_m (fst (updateTodo_m s i b))) i = Some t3"
    by (simp add: Map_set_def map_of_assoc_set)
  then show ?thesis by (simp add: t3_def t2_def)
qed

text \<open>
  Claim C10. After any sequence of requests run from the seed data, the completed flag of
  every todo of the store is a boolean. createTodo stores the truth value of the
  completed field it was given (false when the field is absent), and updateTodo, given a
  completed field, stores its truth value, also when it goes on to answer 400. Both stores
  do so.
\<close>

theorem completed_is_boolean:
  "all_boolean (run seed rs) \<and> all_boolean_m (run_m seed_m rs) \<and>
   (snd (createTodo s b) = TodoJson 201 t \<longrightarrow>
      completed t = JBool (truthy (body_field b ''completed'')) \<and>
      todos (fst (createTodo s b)) = todos s @ [t]) \<and>
   (snd (createTodo_m sm b) = TodoJson 201 t \<longrightarrow>
      completed t = JBool (truthy (body_field b ''completed'')) \<and>
      map_of (todos_m (fst (createTodo_m sm b))) (tid t) = Some t) \<and>
   (find (\<lambda>t. tid t = i) (todos s) \<noteq> None \<and> body_field b ''completed'' \<noteq> JUndefined \<longrightarrow>
      map_option completed (find (\<lambda>t. tid t = i) (todos (fst (updateTodo s i b)))) =
        Some (JBool (truthy (body_field b ''completed'')))) \<and>
   (map_of (todos_m sm) i \<noteq> None \<and> body_field b ''completed'' \<noteq> JUndefined \<longrightarrow>
      map_option completed (map_of (todos_m (fst (updateTodo_m sm i b))) i) =
        Some (JBool (truthy (body_field b ''completed''))))"
proof (intro conjI impI)
  show "all_boolean (run seed rs)"
    by (rule all_boolean_run [OF all_boolean_seed])
  show "all_boolean_m (run_m seed_m rs)"
    by (rule all_boolean_m_run [OF all_boolean_m_seed])
qed (simp_all add: createTodo_created createTodo_m_created updateTodo_completed updateTodo_m_completed)

theorem completed_is_boolean_witness:
  "all_boolean (run seed
     [CreateTodo (JObj [(''userId'', JStr ''2''), (''title'', JStr ''Pay rent''), (''completed'', JStr ''no'')]),
      UpdateTodo ''3'' (JObj [(''completed'', JNull)])]) \<and>
   map completed (todos (run seed
     [CreateTodo (JObj [(''userId'', JStr ''2''), (''title'', JStr ''Pay rent''), (''completed'', JStr ''no'')]),
      UpdateTodo ''3'' (JObj [(''completed'', JNull)])])) =
     [JBool False, JBool True, JBool False, JBool True] \<and>
   snd (createTodo seed
     (JObj [(''userId'', JStr ''2''), (''title'', JStr ''Pay rent''), (''completed'', JStr ''no'')])) =
     TodoJson 201 \<lparr>tid = ''6'', userId = JStr ''2'', title = JStr ''Pay rent'', completed = JBool True\<rparr> \<and>
   snd (createTodo_m seed_m
     (JObj [(''userId'', JStr ''2''), (''title'', JStr ''Pay rent''), (''completed'', JStr ''no'')])) =
     TodoJson 201 \<lparr>tid = ''6'', userId = JStr ''2'', title = JStr ''Pay rent'', completed = JBool True\<rparr> \<and>
   find (\<lambda>t. tid t = ''4'') (todos seed) \<noteq> None \<and> map_of (todos_m seed_m) ''4'' \<noteq> None \<and>
   body_field (JObj [(''completed'', JNum (Finite 0)), (''userId'', JStr ''99'')]) ''completed'' \<noteq> JUndefined \<and>
   map_option completed (find (\<lambda>t. tid t = ''4'') (todos (fst (updateTodo seed ''4''
     (JObj [(''completed'', JNum (Finite 0)), (''userId'', JStr ''99'')]))))) = Some (JBool False) \<and>
   map_option completed (map_of (todos_m (fst (updateTodo_m seed_m ''4''
     (JObj [(''completed'', JNum (Finite 0)), (''userId'', JStr ''99'')])))) ''4'') = Some (JBool False)"
  using completed_is_boolean [of
     "[CreateTodo (JObj [(''userId'', JStr ''2''), (''title'', JStr ''Pay rent''), (''completed'', JStr ''no'')]),
       UpdateTodo ''3'' (JObj [(''completed'', JNull)])]"
     seed "JObj [(''userId'', JStr ''2''), (''title'', JStr ''Pay rent''), (''completed'', JStr ''no'')]"
     "\<lparr>tid = ''6'', userId = JStr ''2'', title = JStr ''Pay rent'', completed = JBool True\<rparr>"
     seed_m "''4''"]
    completed_is_boolean [of "[]" seed "JObj [(''completed'', JNum (Finite 0)), (''userId'', JStr ''99'')]"
     "\<lparr>tid = ''6'', userId = JStr ''2'', title = JStr ''Pay rent'', completed = JBool True\<rparr>"
     seed_m "''4''"]
  by (simp add: run_def seed_eq seed_m_eq createTodo_def createTodo_m_def updateTodo_def
      updateTodo_m_def body_field_def body_or_empty_def makeId_def makeId_m_def String_of_small
      digit_def Let_def Map_set_def)

section \<open>Properties of the metrics aggregator\<close>

subsection \<open>The recent requests of server.js\<close>

lemma push_recent_drop:
  "push_recent e (drop (length es - 100) es) = drop (length (es @ [e]) - 100) (es @ [e])"
proof (cases "length es < 100")
  case True
  then show ?thesis by (simp add: push_recent_def)
next
  case False
  then have n: "100 \<le> length es" by simp
  then have ne: "drop (length es - 100) es \<noteq> []" by simp
  have "push_recent e (drop (length es - 100) es) = tl (drop (length es - 100) es @ [e])"
    using n by (simp add: push_recent_def Let_def)
  also have "\<dots> = tl (drop (length es - 100) es) @ [e]"
    using ne by simp
  also have "tl (drop (length es - 100) es) = drop (Suc (length es - 100)) es"
    by (simp add: drop_Suc tl_drop)
  also have "Suc (length es - 100) = length (es @ [e]) - 100"
    using n by simp
  also have "drop (length (es @ [e]) - 100) es @ [e] = drop (length (es @ [e]) - 100) (es @ [e])"
    using n by simp
  finally show ?thesis .
qed

lemma recent_recordRequest_a:
  "recent (recordRequest_a m f) = push_recent (entry_of f) (recent m)"
  by (simp add: recordRequest_a_def count_request_def Let_def)

lemma recent_a:
  "recent (foldl recordRequest_a (init_a t) fs) = drop (length fs - 100) (map entry_of fs)"
proof (induction fs rule: rev_induct)
  case Nil
  then show ?case by (simp add: init_a_def)
next
  case (snoc f fs)
  have "recent (foldl recordRequest_a (init_a t) (fs @ [f])) =
      push_recent (entry_of f) (drop (length (map entry_of fs) - 100) (map entry_of fs))"
    using snoc by (simp add: recent_recordRequest_a)
  also have "\<dots> = drop (length (map entry_of fs @ [entry_of f]) - 100) (map entry_of fs @ [entry_of f])"
    by (rule push_recent_drop)
  finally show ?case by simp
qed

lemma last20:
  "rev (drop (length (drop (length es - 100) es) - 20) (drop (length es - 100) es)) = take 20 (rev es)"
proof -
  have "length (drop (length es - 100) es) - 20 + (length es - 100) = length es - 20"
    by (cases "100 \<le> length es") auto
  then have "drop (length (drop (length es - 100) es) - 20) (drop (length es - 100) es) =
      drop (length es - 20) es"
    by (simp only: drop_drop)
  then show ?thesis by (simp add: take_rev)
qed

lemma snap_recent_a:
  "snap_recent (stats_a (foldl recordRequest_a (init_a t) fs)) = take 20 (rev (map entry_of fs))"
  using last20 [of "map entry_of fs"] by (simp add: stats_a_def recent_a)

subsection \<open>The ring of the second file\<close>

lemma behind_ne:
  assumes "0 < j" "j < 100" "j \<le> n"
  shows "(n - j) mod 100 \<noteq> n mod (100::nat)"
proof
  assume "(n - j) mod 100 = n mod 100"
  then have "n mod 100 = (n - j) mod 100" by simp
  then have "100 dvd n - (n - j)"
    by (subst (asm) mod_eq_dvd_iff_nat) simp_all
  with assms have "100 dvd j" by simp
  with assms show False by (auto dest: dvd_imp_le)
qed

lemma ring_inv_init: "ring_inv [] (init_c t)"
  by (simp add: ring_inv_def init_c_def RECENT_SIZE_def)

lemma ring_inv_step:
  assumes "ring_inv es m"
  shows "ring_inv (es @ [entry_of f]) (recordRequest_c m f)"
proof -
  define n where "n = length es"
  define buf where "buf = recent_c m"
  from assms have len: "length buf = 100" and idx: "recentIndex m = n mod 100"
    and cnt: "recentCount m = min n 100"
    and slots: "\<And>j. j < min n 100 \<Longrightarrow> buf ! ((n - 1 - j) mod 100) = Some (es ! (n - 1 - j))"
    and empty: "\<And>k. n \<le> k \<Longrightarrow> k < 100 \<Longrightarrow> buf ! k = None"
    by (simp_all add: ring_inv_def n_def buf_def)
  have buf': "recent_c (recordRequest_c m f) = buf[n mod 100 := Some (entry_of f)]"
    using len idx
    by (simp add: recordRequest_c_def count_request_def Let_def Array_set_def buf_def)
  have idx': "recentIndex (recordRequest_c m f) = Suc n mod 100"
    using idx by (simp add: recordRequest_c_def count_request_def Let_def RECENT_SIZE_def mod_Suc_eq)
  have cnt': "recentCount (recordRequest_c m f) = min (Suc n) 100"
    using cnt by (auto simp: recordRequest_c_def count_request_def Let_def RECENT_SIZE_def)
  have slots': "buf[n mod 100 := Some (entry_of f)] ! ((n - j) mod 100) = Some ((es @ [entry_of f]) ! (n - j))"
    if "j < min (Suc n) 100" for j
  proof (cases "j = 0")
    case True
    then show ?thesis using len by (simp add: n_def)
  next
    case False
    with that have j: "0 < j" "j < 100" "j \<le> n" by simp_all
    then have "(n - j) mod 100 \<noteq> n mod 100" by (rule behind_ne)
    then have "buf[n mod 100 := Some (entry_of f)] ! ((n - j) mod 100) = buf ! ((n - j) mod 100)"
      by simp
    also have "n - j = n - 1 - (j - 1)" using j by simp
    also have "buf ! ((n - 1 - (j - 1)) mod 100) = Some (es ! (n - 1 - (j - 1)))"
      using j by (intro slots) auto
    also have "n - 1 - (j - 1) = n - j" using j by simp
    also have "es ! (n - j) = (es @ [entry_of f]) ! (n - j)"
      using j by (simp add: nth_append n_def)
    finally show ?thesis .
  qed
  have empty': "buf[n mod 100 := Some (entry_of f)] ! k = None" if "Suc n \<le> k" "k < 100" for k
    using that empty [of k] by simp
  show ?thesis
    unfolding ring_inv_def buf' idx' cnt'
    using len slots' empty' by (simp add: n_def)
qed

lemma ring_inv_run: "ring_inv (map entry_of fs) (foldl recordRequest_c (init_c t) fs)"
proof (induction fs rule: rev_induct)
  case Nil
  then show ?case by (simp add: ring_inv_init)
next
  case (snoc f fs)
  from ring_inv_step [OF snoc, of f] show ?case by simp
qed

lemma ring_index:
  assumes "i < n" "i < 100"
  shows "js_rem (int (n mod 100) - 1 - int i + int 100) (int 100) = int ((n - 1 - i) mod 100)"
proof -
  have "int (n mod 100) - 1 - int i + int 100 = int (n mod 100 + (99 - i))"
    using assms by simp
  then have "js_rem (int (n mod 100) - 1 - int i + int 100) (int 100) =
      int ((n mod 100 + (99 - i)) mod 100)"
    by (simp only: js_rem_def) (simp add: zmod_int)
  also have "(n mod 100 + (99 - i)) mod 100 = (n + (99 - i)) mod 100"
    by (simp add: mod_add_left_eq)
  also have "n + (99 - i) = (n - 1 - i) + 100"
    using assms by simp
  also have "((n - 1 - i) + 100) mod 100 = (n - 1 - i) mod 100"
    by simp
  finally show ?thesis .
qed

lemma read_recent_eq:
  assumes inv: "ring_inv es m" and k: "k \<le> min (length es) 100"
  shows "i \<le> k \<Longrightarrow>
    read_recent m k i acc = acc @ map (\<lambda>j. es ! (length es - 1 - j)) [i..<k]"
proof (induction "k - i" arbitrary: i acc)
  case 0
  then have "i = k" by simp
  then show ?case by (simp add: read_recent.simps)
next
  case (Suc d)
  then have i: "i < k" by simp
  with k have il: "i < length es" "i < 100" by simp_all
  from inv have len: "length (recent_c m) = 100" and idx: "recentIndex m = length es mod 100"
    by (simp_all add: ring_inv_def)
  from inv il have slot: "recent_c m ! ((length es - 1 - i) mod 100) = Some (es ! (length es - 1 - i))"
    by (simp add: ring_inv_def)
  have "Array_get (recent_c m)
      (js_rem (int (recentIndex m) - 1 - int i + int RECENT_SIZE) (int RECENT_SIZE)) =
      Some (es ! (length es - 1 - i))"
    unfolding idx RECENT_SIZE_def ring_index [OF il]
    using slot len by (simp add: Array_get_def)
  then have "read_recent m k i acc = read_recent m k (i + 1) (acc @ [es ! (length es - 1 - i)])"
    using i by (subst read_recent.simps) (simp add: Let_def)
  also have "\<dots> = (acc @ [es ! (length es - 1 - i)]) @
      map (\<lambda>j. es ! (length es - 1 - j)) [i + 1..<k]"
    using Suc.hyps(2) i by (intro Suc.hyps(1)) simp_all
  also have "\<dots> = acc @ map (\<lambda>j. es ! (length es - 1 - j)) [i..<k]"
    using i by (simp add: upt_conv_Cons)
  finally show ?case .
qed

lemma newest_first:
  "k \<le> length es \<Longrightarrow> map (\<lambda>j. es ! (length es - 1 - j)) [0..<k] = take k (rev es)"
  by (rule nth_equalityI) (auto simp: rev_nth)

lemma snap_recent_ring:
  assumes "ring_inv es m"
  shows "snap_recent (stats_c m) = take 20 (rev es)"
proof -
  from assms have cnt: "recentCount m = min (length es) 100"
    by (simp add: ring_inv_def)
  have "min (20::nat) (min (min (length es) 100) 100) = min 20 (length es)"
    by (simp add: min_def)
  then have "snap_recent (stats_c m) = read_recent m (min 20 (length es)) 0 []"
    by (simp add: stats_c_def Let_def RECENT_SIZE_def cnt)
  also have "\<dots> = [] @ map (\<lambda>j. es ! (length es - 1 - j)) [0..<min 20 (length es)]"
    using assms by (rule read_recent_eq) simp_all
  also have "\<dots> = take (min 20 (length es)) (rev es)"
    using newest_first [of "min 20 (length es)" es] by simp
  also have "\<dots> = take 20 (rev es)"
    by (simp add: min_def)
  finally show ?thesis .
qed

lemma snap_recent_c:
  "snap_recent (stats_c (foldl recordRequest_c (init_c t) fs)) = take 20 (rev (map entry_of fs))"
  by (rule snap_recent_ring [OF ring_inv_run])

lemma ring_contents:
  assumes "ring_inv es m"
  shows "List.map_filter id (rotate (recentIndex m) (recent_c m)) = drop (length es - 100) es"
proof (cases "length es < 100")
  case True
  from assms have len: "length (recent_c m) = 100" and idx: "recentIndex m = length es mod 100"
    and slots: "\<And>j. j < min (length es) 100 \<Longrightarrow>
        recent_c m ! ((length es - 1 - j) mod 100) = Some (es ! (length es - 1 - j))"
    and empty: "\<And>k. length es \<le> k \<Longrightarrow> k < 100 \<Longrightarrow> recent_c m ! k = None"
    by (simp_all add: ring_inv_def)
  have buf: "recent_c m = map Some es @ replicate (100 - length es) None"
  proof (rule nth_equalityI)
    show "length (recent_c m) = length (map Some es @ replicate (100 - length es) None)"
      using True len by simp
  next
    fix k assume "k < length (recent_c m)"
    with len have k: "k < 100" by simp
    show "recent_c m ! k = (map Some es @ replicate (100 - length es) None) ! k"
    proof (cases "k < length es")
      case kl: True
      with True have "recent_c m ! ((length es - 1 - (length es - 1 - k)) mod 100) =
          Some (es ! (length es - 1 - (length es - 1 - k)))"
        by (intro slots) simp
      moreover have "length es - 1 - (length es - 1 - k) = k" using kl by simp
      ultimately show ?thesis using kl k by (simp add: nth_append)
    next
      case False
      with k show ?thesis by (simp add: nth_append empty)
    qed
  qed
  have "rotate (recentIndex m) (recent_c m) = replicate (100 - length es) None @ map Some es"
    unfolding buf idx using True rotate_append [of "map Some es" "replicate (100 - length es) None"]
    by simp
  then show ?thesis
    using True by (simp add: map_filter_def o_def filter_map)
next
  case False
  then have n: "100 \<le> length es" by simp
  from assms have len: "length (recent_c m) = 100" and idx: "recentIndex m = length es mod 100"
    and slots: "\<And>j. j < min (length es) 100 \<Longrightarrow>
        recent_c m ! ((length es - 1 - j) mod 100) = Some (es ! (length es - 1 - j))"
    by (simp_all add: ring_inv_def)
  have rot: "rotate (recentIndex m) (recent_c m) = map Some (drop (length es - 100) es)"
  proof (rule nth_equalityI)
    show "length (rotate (recentIndex m) (recent_c m)) = length (map Some (drop (length es - 100) es))"
      using n len by simp
  next
    fix j assume "j < length (rotate (recentIndex m) (recent_c m))"
    with len have j: "j < 100" by simp
    have "rotate (recentIndex m) (recent_c m) ! j = recent_c m ! ((length es mod 100 + j) mod 100)"
      using j len by (simp add: nth_rotate idx)
    also have "(length es mod 100 + j) mod 100 = (length es + j) mod 100"
      by (simp add: mod_add_left_eq)
    also have "length es + j = (length es - 1 - (99 - j)) + 100"
      using n j by simp
    also have "((length es - 1 - (99 - j)) + 100) mod 100 = (length es - 1 - (99 - j)) mod 100"
      by simp
    also have "recent_c m ! ((length es - 1 - (99 - j)) mod 100) = Some (es ! (length es - 1 - (99 - j)))"
      using n j by (intro slots) simp
    also have "length es - 1 - (99 - j) = length es - 100 + j"
      using n j by simp
    finally show "rotate (recentIndex m) (recent_c m) ! j = map Some (drop (length es - 100) es) ! j"
      using n j by simp
  qed
  show ?thesis
    unfolding rot by (simp add: map_filter_def o_def filter_map)
qed

lemma fields_a:
  "startedAt (recordRequest_a m f) = startedAt m"
  "totalRequests (recordRequest_a m f) = totalRequests m + 1"
  "byRoute (recordRequest_a m f) = bump_route f (byRoute m)"
  by (simp_all add: recordRequest_a_def count_request_def Let_def)

lemma fields_c:
  "startedAt (recordRequest_c m f) = startedAt m"
  "totalRequests (recordRequest_c m f) = totalRequests m + 1"
  "byRoute (recordRequest_c m f) = bump_route f (byRoute m)"
  by (simp_all add: recordRequest_c_def count_request_def Let_def)

lemma common_fields:
  "startedAt (foldl recordRequest_a (init_a t) fs) = startedAt (foldl recordRequest_c (init_c t) fs) \<and>
   totalRequests (foldl recordRequest_a (init_a t) fs) =
     totalRequests (foldl recordRequest_c (init_c t) fs) \<and>
   byRoute (foldl recordRequest_a (init_a t) fs) = byRoute (foldl recordRequest_c (init_c t) fs)"
proof (induction fs rule: rev_induct)
  case Nil
  then show ?case by (simp add: init_a_def init_c_def)
next
  case (snoc f fs)
  then show ?case
    by (simp add: fields_a fields_c)
qed

lemma floor_numeral_quotient: "\<lfloor>(numeral a :: rat) / numeral b\<rfloor> = numeral a div numeral b"
  using floor_divide_of_int_eq [of "numeral a" "numeral b", where ?'a = rat] by simp

lemma floor_one_quotient: "\<lfloor>(1 :: rat) / numeral b\<rfloor> = 1 div numeral b"
  using floor_divide_of_int_eq [of 1 "numeral b", where ?'a = rat] by simp

text \<open>
  Claim C3. For every sequence of recorded requests, the array with push and shift of
  server.js and the ring with write index and count of the second file give the same
  recent list in the snapshot, the same records in the same order, newest first; the whole
  snapshots are equal.
\<close>

theorem recent_stores_agree:
  "snap_recent (stats_a (foldl recordRequest_a (init_a t) fs)) =
     snap_recent (stats_c (foldl recordRequest_c (init_c t) fs)) \<and>
   stats_a (foldl recordRequest_a (init_a t) fs) = stats_c (foldl recordRequest_c (init_c t) fs)"
proof -
  have r: "snap_recent (stats_a (foldl recordRequest_a (init_a t) fs)) =
      snap_recent (stats_c (foldl recordRequest_c (init_c t) fs))"
    by (simp add: snap_recent_a snap_recent_c)
  have "snap_startedAt (stats_a (foldl recordRequest_a (init_a t) fs)) =
        snap_startedAt (stats_c (foldl recordRequest_c (init_c t) fs))"
    and "snap_totalRequests (stats_a (foldl recordRequest_a (init_a t) fs)) =
        snap_totalRequests (stats_c (foldl recordRequest_c (init_c t) fs))"
    and "snap_routes (stats_a (foldl recordRequest_a (init_a t) fs)) =
        snap_routes (stats_c (foldl recordRequest_c (init_c t) fs))"
    using common_fields [of t fs]
    by (simp_all add: stats_a_def stats_c_def Let_def routes_of_def)
  with r show ?thesis by simp
qed

theorem recent_stores_agree_witness:
  "map e_ms (snap_recent (stats_a
      (foldl recordRequest_a (init_a ''now'') (sample_requests (Suc (Suc (Suc 0))))))) = [2, 1, 0] \<and>
   map e_ms (snap_recent (stats_c
      (foldl recordRequest_c (init_c ''now'') (sample_requests (Suc (Suc (Suc 0))))))) = [2, 1, 0]"
proof -
  have "map e_ms (snap_recent (stats_a
      (foldl recordRequest_a (init_a ''now'') (sample_requests (Suc (Suc (Suc 0))))))) = [2, 1, 0]"
    unfolding snap_recent_a
    by (simp add: sample_requests_def entry_of_def Math_round_def floor_numeral_quotient
        floor_one_quotient)
  with recent_stores_agree [of "''now''" "sample_requests (Suc (Suc (Suc 0)))"] show ?thesis
    by simp
qed

text \<open>
  Claim C5. After \<open>n\<close> recorded requests the store holds exactly the last \<open>min n 100\<close>
  records, oldest first: the array of server.js is that list, and so are the filled
  slots of the ring read from the write index around. After 150 requests these are the
  records 51 to 150. The snapshot's recent list is the last 20 records at most, newest
  first.
\<close>

theorem recent_retention:
  "recent (foldl recordRequest_a (init_a t) fs) = drop (length fs - 100) (map entry_of fs) \<and>
   length (recent (foldl recordRequest_a (init_a t) fs)) = min (length fs) 100 \<and>
   recentCount (foldl recordRequest_c (init_c t) fs) = min (length fs) 100 \<and>
   List.map_filter id
       (rotate (recentIndex (foldl recordRequest_c (init_c t) fs))
          (recent_c (foldl recordRequest_c (init_c t) fs))) =
     drop (length fs - 100) (map entry_of fs) \<and>
   snap_recent (stats_a (foldl recordRequest_a (init_a t) fs)) = take 20 (rev (map entry_of fs)) \<and>
   snap_recent (stats_c (foldl recordRequest_c (init_c t) fs)) = take 20 (rev (map entry_of fs)) \<and>
   length (snap_recent (stats_a (foldl recordRequest_a (init_a t) fs))) = min (length fs) 20 \<and>
   length (snap_recent (stats_c (foldl recordRequest_c (init_c t) fs))) = min (length fs) 20 \<and>
   (length fs = 150 \<longrightarrow>
      recent (foldl recordRequest_a (init_a t) fs) = drop 50 (map entry_of fs) \<and>
      List.map_filter id
          (rotate (recentIndex (foldl recordRequest_c (init_c t) fs))
             (recent_c (foldl recordRequest_c (init_c t) fs))) =
        drop 50 (map entry_of fs))"
proof -
  have inv: "ring_inv (map entry_of fs) (foldl recordRequest_c (init_c t) fs)"
    by (rule ring_inv_run)
  have ring: "List.map_filter id
       (rotate (recentIndex (foldl recordRequest_c (init_c t) fs))
          (recent_c (foldl recordRequest_c (init_c t) fs))) =
     drop (length fs - 100) (map entry_of fs)"
    using ring_contents [OF inv] by simp
  have cnt: "recentCount (foldl recordRequest_c (init_c t) fs) = min (length fs) 100"
    using inv by (simp add: ring_inv_def)
  show ?thesis
    unfolding ring cnt recent_a snap_recent_a snap_recent_c
    by (simp add: min_def)
qed

theorem recent_retention_witness:
  "length (sample_requests 150) = 150 \<and>
   recent (foldl recordRequest_a (init_a ''now'') (sample_requests 150)) =
     drop 50 (map entry_of (sample_requests 150)) \<and>
   List.map_filter id
       (rotate (recentIndex (foldl recordRequest_c (init_c ''now'') (sample_requests 150)))
          (recent_c (foldl recordRequest_c (init_c ''now'') (sample_requests 150)))) =
     drop 50 (map entry_of (sample_requests 150)) \<and>
   length (snap_recent (stats_c (foldl recordRequest_c (init_c ''now'') (sample_requests 150)))) = 20"
proof -
  have "length (sample_requests 150) = 150"
    by (simp add: sample_requests_def)
  with recent_retention [of "''now''" "sample_requests 150"] show ?thesis
    by simp
qed

subsection \<open>Routes of the snapshot\<close>

lemma set_insert_cmp: "set (insert_cmp c x ys) = insert x (set ys)"
  by (induction ys) auto

lemma mset_insert_cmp: "mset (insert_cmp c x ys) = add_mset x (mset ys)"
  by (induction ys) auto

lemma mset_sort_cmp: "mset (sort_cmp c xs) = mset xs"
  by (induction xs) (simp_all add: sort_cmp_def mset_insert_cmp)

lemma sorted_insert_cmp:
  fixes k :: "'a \<Rightarrow> nat"
  assumes c: "\<And>a b. c a b \<le> 0 \<longleftrightarrow> k b \<le> k a"
  shows "sorted_wrt (\<lambda>a b. k b \<le> k a) ys \<Longrightarrow> sorted_wrt (\<lambda>a b. k b \<le> k a) (insert_cmp c x ys)"
proof (induction ys)
  case Nil
  then show ?case by simp
next
  case (Cons y ys)
  show ?case
  proof (cases "c x y \<le> 0")
    case True
    with c have "k y \<le> k x" by simp
    with Cons.prems True show ?thesis by fastforce
  next
    case False
    with c have "k x \<le> k y" by (meson nat_le_linear)
    with Cons False show ?thesis by (auto simp: set_insert_cmp)
  qed
qed

lemma sorted_sort_cmp:
  fixes k :: "'a \<Rightarrow> nat"
  assumes "\<And>a b. c a b \<le> 0 \<longleftrightarrow> k b \<le> k a"
  shows "sorted_wrt (\<lambda>a b. k b \<le> k a) (sort_cmp c xs)"
proof (induction xs)
  case Nil
  then show ?case by (simp add: sort_cmp_def)
next
  case (Cons x xs)
  have "sort_cmp c (x # xs) = insert_cmp c x (sort_cmp c xs)"
    by (simp add: sort_cmp_def)
  with Cons sorted_insert_cmp [of c k, OF assms] show ?case by simp
qed

lemma routes_sorted: "sorted_wrt (\<lambda>a b. row_count b \<le> row_count a) (routes_of m)"
  unfolding routes_of_def by (rule sorted_sort_cmp) auto

lemma routes_mset: "mset (routes_of m) = mset (map row_of (byRoute m))"
  by (simp add: routes_of_def mset_sort_cmp)

lemma assoc_set_twice: "assoc_set k v (assoc_set k w m) = assoc_set k v m"
  by (induction m) auto

lemma bump_route_hits:
  assumes "\<forall>e \<in> set br. 0 < hits (snd e)"
  shows "\<forall>e \<in> set (bump_route f br). 0 < hits (snd e)"
proof -
  define st where "st = (case map_of (if map_of br (f_key f) = None
      then assoc_set (f_key f) \<lparr>hits = 0, totalMs = Finite 0, statuses = []\<rparr> br else br) (f_key f) of
      None \<Rightarrow> \<lparr>hits = 0, totalMs = Finite 0, statuses = []\<rparr> | Some v \<Rightarrow> v)"
  define st' where "st' = st\<lparr>hits := hits st + 1, totalMs := double_add (totalMs st) (f_ms f),
      statuses := bump_status (f_statusCode f) (statuses st)\<rparr>"
  have "bump_route f br = assoc_set (f_key f) st' br"
    by (simp add: bump_route_def Let_def st'_def st_def assoc_set_twice)
  moreover have "set (assoc_set (f_key f) st' br) \<subseteq> insert (f_key f, st') (set br)"
    by (rule set_assoc_set)
  moreover have "0 < hits st'" by (simp add: st'_def)
  ultimately show ?thesis using assms by auto
qed

lemma hits_positive_a: "\<forall>e \<in> set (byRoute (foldl recordRequest_a (init_a t) fs)). 0 < hits (snd e)"
proof (induction fs rule: rev_induct)
  case Nil
  then show ?case by (simp add: init_a_def)
next
  case (snoc f fs)
  then show ?case by (simp add: fields_a bump_route_hits)
qed

subsection \<open>Rounding to a double\<close>

lemma bits_step: "0 < n \<Longrightarrow> bits n = bits (n div 2) + 1"
  by (subst bits.simps) simp

lemma bits_bounds: "0 < n \<Longrightarrow> 2 ^ (bits n - 1) \<le> n \<and> n < 2 ^ bits n"
proof (induction n rule: bits.induct)
  case (1 n)
  show ?case
  proof (cases "n div 2 = 0")
    case True
    with "1.prems" have "n = 1" by (simp add: div_eq_0_iff)
    then show ?thesis by (simp add: bits.simps)
  next
    case False
    then have m: "0 < n div 2" by simp
    from "1.IH" m "1.prems" have lo: "2 ^ (bits (n div 2) - 1) \<le> n div 2"
      and hi: "n div 2 < 2 ^ bits (n div 2)" by auto
    have b: "bits n = bits (n div 2) + 1" using "1.prems" by (rule bits_step)
    have "0 < bits (n div 2)" using bits_step [OF m] by simp
    then have "(2::nat) ^ (bits n - 1) = 2 * 2 ^ (bits (n div 2) - 1)"
      unfolding b by (cases "bits (n div 2)") simp_all
    also have "\<dots> \<le> 2 * (n div 2)" using lo by simp
    also have "\<dots> \<le> n" by simp
    finally have low: "2 ^ (bits n - 1) \<le> n" .
    have "n < 2 * (n div 2 + 1)"
      using dividend_less_times_div [of 2 n] by simp
    also have "\<dots> \<le> 2 * 2 ^ bits (n div 2)" using hi by simp
    also have "\<dots> = 2 ^ bits n" unfolding b by simp
    finally show ?thesis using low by simp
  qed
qed

lemma bexp_bounds:
  assumes "0 < a"
  shows "2 powi bexp a \<le> a" and "a < 2 powi (bexp a + 1)"
proof -
  have "2 powi bexp a \<le> a \<and> a < 2 powi (bexp a + 1)"
  proof (cases "1 \<le> a")
    case True
    define n where "n = nat \<lfloor>a\<rfloor>"
    from True have f1: "1 \<le> \<lfloor>a\<rfloor>" by (simp add: le_floor_iff)
    then have n: "0 < n" unfolding n_def by linarith
    from f1 have nf: "int n = \<lfloor>a\<rfloor>" unfolding n_def by linarith
    have "(of_nat n :: rat) = of_int (int n)" by simp
    also have "\<dots> = of_int \<lfloor>a\<rfloor>" by (simp only: nf)
    finally have nn: "(of_nat n :: rat) = of_int \<lfloor>a\<rfloor>" .
    have fl1: "of_nat n \<le> a" unfolding nn by (rule of_int_floor_le)
    have "a < of_int \<lfloor>a\<rfloor> + 1" by (rule floor_correct [THEN conjunct2, simplified])
    then have fl2: "a < of_nat n + 1" by (simp only: nn)
    have e: "bexp a = int (bits n) - 1" using True by (simp add: bexp_def n_def)
    from bits_bounds [OF n] have lo: "2 ^ (bits n - 1) \<le> n" and hi: "n < 2 ^ bits n" by simp_all
    have pos: "0 < bits n" using bits_step [OF n] by simp
    then have "bexp a = int (bits n - 1)" by (simp add: e)
    then have "(2::rat) powi bexp a = 2 ^ (bits n - 1)" by (simp only: power_int_of_nat)
    also have "\<dots> = of_nat (2 ^ (bits n - 1))" by simp
    also have "\<dots> \<le> of_nat n" using lo by (simp only: of_nat_le_iff)
    also note fl1
    finally have l: "2 powi bexp a \<le> a" .
    from hi have "n + 1 \<le> 2 ^ bits n" by simp
    then have "(of_nat (n + 1) :: rat) \<le> of_nat (2 ^ bits n)" by (simp only: of_nat_le_iff)
    then have "(of_nat n :: rat) + 1 \<le> 2 ^ bits n" by simp
    with fl2 have "a < 2 ^ bits n" by (rule less_le_trans)
    moreover have "bexp a + 1 = int (bits n)" by (simp add: e)
    then have "(2::rat) powi (bexp a + 1) = 2 ^ bits n" by (simp only: power_int_of_nat)
    ultimately have "a < 2 powi (bexp a + 1)" by simp
    with l show ?thesis by simp
  next
    case False
    with assms have a1: "a < 1" by simp
    define y where "y = inverse a"
    define m where "m = nat \<lceil>y\<rceil>"
    define k where "k = bits (m - 1)"
    from assms a1 have y1: "1 < y" unfolding y_def by (rule one_less_inverse)
    have ay: "a = inverse y" by (simp add: y_def)
    from y1 have c1: "1 < \<lceil>y\<rceil>" by (simp add: less_ceiling_iff)
    then have m2: "2 \<le> m" unfolding m_def by linarith
    from c1 have mc: "int m = \<lceil>y\<rceil>" unfolding m_def by linarith
    have "(of_nat m :: rat) = of_int (int m)" by simp
    also have "\<dots> = of_int \<lceil>y\<rceil>" by (simp only: mc)
    finally have ym: "y \<le> of_nat m" by (simp add: le_of_int_ceiling)
    from c1 have mc1: "int (m - 1) = \<lceil>y\<rceil> - 1" unfolding m_def by linarith
    have "(of_nat (m - 1) :: rat) = of_int (int (m - 1))" by simp
    also have "\<dots> = of_int (\<lceil>y\<rceil> - 1)" by (simp only: mc1)
    also have "\<dots> < y" using ceiling_correct [of y] by simp
    finally have my: "of_nat (m - 1) < y" .
    from m2 have m1: "0 < m - 1" by simp
    from bits_bounds [OF m1] have lo: "2 ^ (k - 1) \<le> m - 1" and hi: "m - 1 < 2 ^ k"
      by (simp_all add: k_def)
    have kpos: "0 < k" using bits_step [OF m1] by (simp add: k_def)
    have e: "bexp a = - int k"
      using False by (simp add: bexp_def k_def m_def y_def inverse_eq_divide)
    from hi have "m \<le> 2 ^ k" by simp
    then have "(of_nat m :: rat) \<le> of_nat (2 ^ k)" by (simp only: of_nat_le_iff)
    also have "(of_nat (2 ^ k) :: rat) = 2 ^ k" by simp
    finally have "(of_nat m :: rat) \<le> 2 ^ k" .
    with ym have yk: "y \<le> 2 ^ k" by (rule order_trans)
    from y1 have ypos: "0 < y" by simp
    from yk ypos have "inverse ((2::rat) ^ k) \<le> inverse y" by (rule le_imp_inverse_le)
    moreover have "(2::rat) powi bexp a = inverse (2 ^ k)" by (simp add: e power_int_minus)
    ultimately have l: "2 powi bexp a \<le> a" by (simp only: ay)
    have "(2::rat) ^ (k - 1) = of_nat (2 ^ (k - 1))" by simp
    also from lo have "\<dots> \<le> of_nat (m - 1)" by (simp only: of_nat_le_iff)
    also note my
    finally have ky: "2 ^ (k - 1) < y" .
    have "inverse y < inverse ((2::rat) ^ (k - 1))"
      using ky by (rule less_imp_inverse_less) simp
    moreover have "bexp a + 1 = - int (k - 1)" using kpos by (simp add: e)
    then have "(2::rat) powi (bexp a + 1) = inverse (2 ^ (k - 1))"
      by (simp only: power_int_minus power_int_of_nat)
    ultimately have "a < 2 powi (bexp a + 1)" by (simp only: ay)
    with l show ?thesis by simp
  qed
  then show "2 powi bexp a \<le> a" and "a < 2 powi (bexp a + 1)" by simp_all
qed

lemma bexp_unique:
  assumes "0 < a" and lo: "2 powi e \<le> a" and hi: "a < 2 powi (e + 1)"
  shows "bexp a = e"
proof (rule antisym)
  show "bexp a \<le> e"
  proof (rule ccontr)
    assume "\<not> bexp a \<le> e"
    then have "e + 1 \<le> bexp a" by simp
    then have "(2::rat) powi (e + 1) \<le> 2 powi bexp a"
      by (intro power_int_increasing) simp_all
    with bexp_bounds(1) [OF assms(1)] hi show False by simp
  qed
  show "e \<le> bexp a"
  proof (rule ccontr)
    assume "\<not> e \<le> bexp a"
    then have "bexp a + 1 \<le> e" by simp
    then have "(2::rat) powi (bexp a + 1) \<le> 2 powi e"
      by (intro power_int_increasing) simp_all
    with bexp_bounds(2) [OF assms(1)] lo show False by simp
  qed
qed

lemma round_half_even_near: "\<bar>of_int (round_half_even x) - x\<bar> \<le> 1 / 2"
proof -
  have "of_int \<lfloor>x\<rfloor> \<le> x" "x < of_int \<lfloor>x\<rfloor> + 1"
    using floor_correct [of x] by simp_all
  then show ?thesis
    by (auto simp: round_half_even_def Let_def abs_le_iff)
qed

lemma round_half_even_unique:
  assumes "of_int n - 1 / 2 < x" and "x < of_int n + 1 / 2"
  shows "round_half_even x = n"
proof -
  define f where "f = \<lfloor>x\<rfloor>"
  have fl: "of_int f \<le> x" "x < of_int f + 1"
    using floor_correct [of x] by (simp_all add: f_def)
  from fl assms have "of_int f < (of_int n :: rat) + 1 / 2" "(of_int n :: rat) - 1 / 2 < of_int f + 1"
    by linarith+
  then have "of_int f < (of_int (n + 1) :: rat)" "(of_int (n - 1) :: rat) < of_int (f + 1)"
    by simp_all
  then have "f < n + 1" "n - 1 < f + 1" by (simp_all only: of_int_less_iff)
  then consider "f = n" | "f = n - 1" by linarith
  then show ?thesis
  proof cases
    case 1
    with assms have "x - of_int f < 1 / 2" by simp
    with 1 show ?thesis by (simp add: round_half_even_def f_def [symmetric])
  next
    case 2
    with assms have "1 / 2 < x - of_int f" by simp
    with 2 show ?thesis by (simp add: round_half_even_def f_def [symmetric])
  qed
qed

lemma double_of_eval:
  assumes lo: "2 powi e \<le> \<bar>x\<bar>" and hi: "\<bar>x\<bar> < 2 powi (e + 1)"
    and e1: "- 1022 \<le> e" and e2: "e \<le> 1022"
    and n1: "of_int n - 1 / 2 < \<bar>x\<bar> / 2 powi (e - 52)"
    and n2: "\<bar>x\<bar> / 2 powi (e - 52) < of_int n + 1 / 2"
  shows "double_of x = Finite (sgn x * (of_int n * 2 powi (e - 52)))"
proof -
  define q :: rat where "q = 2 powi (e - 52)"
  have qpos: "0 < q" by (simp add: q_def)
  have "(0::rat) < 2 powi e" by simp
  from this lo have pos: "0 < \<bar>x\<bar>" by (rule less_le_trans)
  then have x0: "x \<noteq> 0" by simp
  from pos lo hi have be: "bexp \<bar>x\<bar> = e" by (rule bexp_unique)
  from e1 have mx: "max e (- 1022) = e" by simp
  from n1 n2 have r: "round_half_even (\<bar>x\<bar> / q) = n"
    unfolding q_def by (rule round_half_even_unique)
  have "(2::rat) powi (e + 1) = 2 powi (e - 52) * 2 powi 53"
    using power_int_add [of "2::rat" "e - 52" 53] by (simp add: add.commute)
  then have e53: "(2::rat) powi (e + 1) = q * 2 ^ 53" by (simp add: q_def)
  from hi have "\<bar>x\<bar> < q * 2 ^ 53" by (simp only: e53)
  with qpos have "\<bar>x\<bar> / q < 2 ^ 53" by (simp add: field_simps)
  with n1 have "of_int n - 1 / 2 < (2::rat) ^ 53" unfolding q_def by (rule less_trans)
  then have "(of_int n :: rat) < of_int (2 ^ 53 + 1)" by simp
  then have "n < 2 ^ 53 + 1" by (simp only: of_int_less_iff)
  then have "n \<le> 2 ^ 53" by simp
  then have "(of_int n :: rat) \<le> of_int (2 ^ 53)" by (simp only: of_int_le_iff)
  then have "(of_int n :: rat) \<le> 2 ^ 53" by simp
  with qpos have "of_int n * q \<le> 2 ^ 53 * q" by (simp only: mult_le_cancel_right_pos)
  also have "\<dots> = 2 powi (e + 1)" by (simp add: e53)
  also from e2 have "\<dots> \<le> 2 powi 1023" by (intro power_int_increasing) simp_all
  also have "\<dots> < (2::rat) powi 1024" by (intro power_int_strict_increasing) simp_all
  finally have fin: "\<not> 2 powi 1024 \<le> of_int n * q" by simp
  show ?thesis
    unfolding double_of_def Let_def be mx q_def [symmetric] r
    using x0 fin by simp
qed

lemma double_of_error:
  assumes "double_of x = Finite d"
  shows "\<bar>d - x\<bar> \<le> max (\<bar>x\<bar> / 2 ^ 53) (1 / 2 ^ 1075)"
proof (cases "x = 0")
  case True
  with assms show ?thesis by (simp add: double_of_def)
next
  case False
  define e where "e = max (bexp \<bar>x\<bar>) (- 1022)"
  define q :: rat where "q = 2 powi (e - 52)"
  define n where "n = round_half_even (\<bar>x\<bar> / q)"
  have qpos: "0 < q" by (simp add: q_def)
  from False have pos: "0 < \<bar>x\<bar>" by simp
  from assms False have d: "d = sgn x * (of_int n * q)"
    by (simp add: double_of_def Let_def e_def [symmetric] q_def [symmetric] n_def [symmetric]
        split: if_splits)
  have "x = sgn x * \<bar>x\<bar>" by (simp add: sgn_mult_abs)
  then have "d - x = sgn x * (of_int n * q - \<bar>x\<bar>)"
    unfolding d by (simp add: algebra_simps)
  then have "\<bar>d - x\<bar> = \<bar>of_int n * q - \<bar>x\<bar>\<bar>"
    using False by (simp add: abs_mult abs_sgn_eq)
  also have "of_int n * q - \<bar>x\<bar> = (of_int n - \<bar>x\<bar> / q) * q"
    using qpos by (simp add: field_simps)
  also have "\<bar>(of_int n - \<bar>x\<bar> / q) * q\<bar> = \<bar>of_int n - \<bar>x\<bar> / q\<bar> * q"
    using qpos by (simp add: abs_mult)
  also have "\<dots> \<le> 1 / 2 * q"
    using round_half_even_near [of "\<bar>x\<bar> / q"] qpos
    unfolding n_def by (simp only: mult_le_cancel_right_pos)
  finally have half: "\<bar>d - x\<bar> \<le> q / 2" by simp
  show ?thesis
  proof (cases "- 1022 \<le> bexp \<bar>x\<bar>")
    case True
    then have "e = bexp \<bar>x\<bar>" by (simp add: e_def)
    with bexp_bounds(1) [OF pos] have "2 powi e \<le> \<bar>x\<bar>" by simp
    moreover have "(2::rat) powi e = 2 powi (e - 52) * 2 powi 52"
      using power_int_add [of "2::rat" "e - 52" 52] by simp
    ultimately have "q * 2 ^ 52 \<le> \<bar>x\<bar>" by (simp add: q_def)
    then have "q / 2 \<le> \<bar>x\<bar> / 2 ^ 53" by simp
    with half have "\<bar>d - x\<bar> \<le> \<bar>x\<bar> / 2 ^ 53" by (rule order_trans)
    then show ?thesis by (rule max.coboundedI1)
  next
    case False
    then have "e = - 1022" by (simp add: e_def)
    then have "q = 2 powi (- 1074)" by (simp add: q_def)
    then have "q / 2 = 1 / 2 ^ 1075" by (simp add: power_int_minus field_simps)
    with half have "\<bar>d - x\<bar> \<le> 1 / 2 ^ 1075" by (simp only:)
    then show ?thesis by (rule max.coboundedI2)
  qed
qed

subsection \<open>One decimal place\<close>

lemma tenth_tenths: "\<exists>k::int. tenth x = of_int k / 10"
proof (cases "x < 0")
  case True
  then have "tenth x = of_int (- \<lfloor>(- x) * 10 + 1 / 2\<rfloor>) / 10"
    by (simp add: tenth_def)
  then show ?thesis by blast
next
  case False
  then have "tenth x = of_int \<lfloor>x * 10 + 1 / 2\<rfloor> / 10"
    by (simp add: tenth_def)
  then show ?thesis by blast
qed

lemma round_half_near:
  fixes y :: rat
  shows "\<bar>of_int \<lfloor>y * 10 + 1 / 2\<rfloor> / 10 - y\<bar> \<le> 1 / 20"
proof -
  define n :: rat where "n = of_int \<lfloor>y * 10 + 1 / 2\<rfloor>"
  have lo: "n \<le> y * 10 + 1 / 2"
    unfolding n_def by (rule of_int_floor_le)
  have hi: "y * 10 + 1 / 2 < n + 1"
    unfolding n_def using floor_correct [of "y * 10 + 1 / 2"] by simp
  have "n / 10 - y \<le> 1 / 20" using lo by linarith
  moreover have "- (1 / 20) \<le> n / 10 - y" using hi by linarith
  ultimately have "\<bar>n / 10 - y\<bar> \<le> 1 / 20" by (rule abs_leI [OF _ minus_le_iff [THEN iffD1]])
  then show ?thesis by (simp add: n_def)
qed

lemma tenth_near: "\<bar>tenth x - x\<bar> \<le> 1 / 20"
proof (cases "x < 0")
  case True
  have "\<bar>tenth x - x\<bar> = \<bar>of_int \<lfloor>(- x) * 10 + 1 / 2\<rfloor> / 10 - (- x)\<bar>"
    using True by (simp add: tenth_def abs_minus_commute)
  also have "\<dots> \<le> 1 / 20" by (rule round_half_near)
  finally show ?thesis .
next
  case False
  then show ?thesis using round_half_near [of x] by (simp add: tenth_def)
qed

lemma double_of_finite:
  assumes "\<bar>x\<bar> < 2 powi 1023"
  shows "\<exists>d. double_of x = Finite d"
proof (cases "x = 0")
  case True
  then show ?thesis by (simp add: double_of_def)
next
  case False
  define e where "e = max (bexp \<bar>x\<bar>) (- 1022)"
  define q :: rat where "q = 2 powi (e - 52)"
  define n where "n = round_half_even (\<bar>x\<bar> / q)"
  have qpos: "0 < q" by (simp add: q_def)
  from False have pos: "0 < \<bar>x\<bar>" by simp
  have "bexp \<bar>x\<bar> \<le> 1022"
  proof (rule ccontr)
    assume "\<not> bexp \<bar>x\<bar> \<le> 1022"
    then have "1023 \<le> bexp \<bar>x\<bar>" by simp
    then have "(2::rat) powi 1023 \<le> 2 powi bexp \<bar>x\<bar>"
      by (intro power_int_increasing) simp_all
    also note bexp_bounds(1) [OF pos]
    finally show False using assms by simp
  qed
  then have e2: "e \<le> 1022" by (simp add: e_def)
  have "bexp \<bar>x\<bar> + 1 \<le> e + 1" by (simp add: e_def)
  then have "(2::rat) powi (bexp \<bar>x\<bar> + 1) \<le> 2 powi (e + 1)"
    by (intro power_int_increasing) simp_all
  with bexp_bounds(2) [OF pos] have hi: "\<bar>x\<bar> < 2 powi (e + 1)" by (rule less_le_trans)
  have "(2::rat) powi (e + 1) = 2 powi (e - 52) * 2 powi 53"
    using power_int_add [of "2::rat" "e - 52" 53] by (simp add: add.commute)
  then have e53: "(2::rat) powi (e + 1) = q * 2 ^ 53" by (simp add: q_def)
  from hi have "\<bar>x\<bar> < q * 2 ^ 53" by (simp only: e53)
  with qpos have "\<bar>x\<bar> / q < 2 ^ 53" by (simp add: field_simps)
  moreover have "of_int n - \<bar>x\<bar> / q \<le> 1 / 2"
    using round_half_even_near [of "\<bar>x\<bar> / q"] unfolding n_def by (simp only: abs_le_iff)
  ultimately have "(of_int n :: rat) < 2 ^ 53 + 1" by linarith
  then have "(of_int n :: rat) < of_int (2 ^ 53 + 1)" by simp
  then have "n < 2 ^ 53 + 1" by (simp only: of_int_less_iff)
  then have "n \<le> 2 ^ 53" by simp
  then have "(of_int n :: rat) \<le> of_int (2 ^ 53)" by (simp only: of_int_le_iff)
  then have "(of_int n :: rat) \<le> 2 ^ 53" by simp
  with qpos have "of_int n * q \<le> 2 ^ 53 * q" by (simp only: mult_le_cancel_right_pos)
  also have "\<dots> = 2 powi (e + 1)" by (simp add: e53)
  also from e2 have "\<dots> \<le> 2 powi 1023" by (intro power_int_increasing) simp_all
  also have "\<dots> < (2::rat) powi 1024" by (intro power_int_strict_increasing) simp_all
  finally have fin: "\<not> 2 powi 1024 \<le> of_int n * q" by simp
  show ?thesis
    unfolding double_of_def Let_def e_def [symmetric] q_def [symmetric] n_def [symmetric]
    using False fin by simp
qed

lemma double_of_error_weak:
  assumes "double_of x = Finite d"
  shows "\<bar>d - x\<bar> \<le> (\<bar>x\<bar> + 1) / 2 ^ 53"
proof -
  have "\<bar>x\<bar> / 2 ^ 53 \<le> (\<bar>x\<bar> + 1) / 2 ^ 53" by (simp add: divide_right_mono)
  moreover have "(1::rat) / 2 ^ 1075 \<le> (0 + 1) / 2 ^ 53" by simp
  then have "(1::rat) / 2 ^ 1075 \<le> (\<bar>x\<bar> + 1) / 2 ^ 53"
    by (rule order_trans) (simp add: divide_right_mono)
  ultimately have "max (\<bar>x\<bar> / 2 ^ 53) (1 / 2 ^ 1075) \<le> (\<bar>x\<bar> + 1) / 2 ^ 53"
    by (rule max.boundedI)
  with double_of_error [OF assms] show ?thesis by (rule order_trans)
qed

lemma avgMs_near:
  assumes "\<bar>t / of_nat n\<bar> < 10 ^ 20"
  shows "\<exists>d. toFixed1 (double_div (Finite t) n) = Finite d \<and>
    \<bar>d - t / of_nat n\<bar> \<le> 1 / 20 + (\<bar>t / of_nat n\<bar> + 2) / 2 ^ 51"
proof -
  define x where "x = t / of_nat n"
  define u :: rat where "u = 1 / 2 ^ 53"
  have u: "0 < u" "u \<le> 1" by (simp_all add: u_def)
  from assms have x20: "\<bar>x\<bar> < 10 ^ 20" by (simp add: x_def)
  have big: "(10::rat) ^ 21 + 1 < 2 powi 1023" by simp
  have c: "2 * (10::rat) ^ 20 + 1 < 10 ^ 21" "(0::rat) < 10 ^ 20" by simp_all
  from x20 big c have "\<bar>x\<bar> < 2 powi 1023" by linarith
  then obtain y where y: "double_of x = Finite y" using double_of_finite by blast
  from double_of_error_weak [OF y] have e1: "\<bar>y - x\<bar> \<le> (\<bar>x\<bar> + 1) * u" by (simp add: u_def)
  have "(\<bar>x\<bar> + 1) * u \<le> (\<bar>x\<bar> + 1) * 1"
    using u by (intro mult_left_mono) simp_all
  with e1 have yx: "\<bar>y - x\<bar> \<le> \<bar>x\<bar> + 1" by simp
  with x20 c have y21: "\<bar>y\<bar> < 10 ^ 21" by linarith
  then have tf: "toFixed1 (Finite y) = double_of (tenth y)" by (simp add: toFixed1_def)
  have tn: "\<bar>tenth y - y\<bar> \<le> 1 / 20" by (rule tenth_near)
  with y21 big have "\<bar>tenth y\<bar> < 2 powi 1023" by linarith
  then obtain d where d: "double_of (tenth y) = Finite d" using double_of_finite by blast
  from double_of_error_weak [OF d] have e2: "\<bar>d - tenth y\<bar> \<le> (\<bar>tenth y\<bar> + 1) * u"
    by (simp add: u_def)
  from tn yx have "\<bar>tenth y\<bar> + 1 \<le> 2 * \<bar>x\<bar> + 3" by linarith
  then have "(\<bar>tenth y\<bar> + 1) * u \<le> (2 * \<bar>x\<bar> + 3) * u"
    using u by (intro mult_right_mono) simp_all
  with e2 have e3: "\<bar>d - tenth y\<bar> \<le> (2 * \<bar>x\<bar> + 3) * u" by (rule order_trans)
  have "\<bar>d - x\<bar> \<le> \<bar>d - tenth y\<bar> + \<bar>tenth y - y\<bar> + \<bar>y - x\<bar>" by linarith
  with e1 e3 tn have "\<bar>d - x\<bar> \<le> 1 / 20 + ((2 * \<bar>x\<bar> + 3) * u + (\<bar>x\<bar> + 1) * u)" by linarith
  also have "(2 * \<bar>x\<bar> + 3) * u + (\<bar>x\<bar> + 1) * u \<le> (4 * \<bar>x\<bar> + 8) * u"
    using u by (simp add: algebra_simps)
  also have "(4 * \<bar>x\<bar> + 8) * u = (\<bar>x\<bar> + 2) / 2 ^ 51" by (simp add: u_def)
  finally have "\<bar>d - x\<bar> \<le> 1 / 20 + (\<bar>x\<bar> + 2) / 2 ^ 51" by simp
  moreover have "toFixed1 (double_div (Finite t) n) = Finite d"
    by (simp add: double_div_def x_def [symmetric] y tf d)
  ultimately show ?thesis unfolding x_def by blast
qed

subsection \<open>The average of a route\<close>

text \<open>Doubles of the examples below: 10 / 3, 3.3, 2.5, and 0.01, 0.22, 0.23, 0.45, 0.15, 0.1, 0.2.\<close>

lemma double_div_10_3:
  assumes "t = 10" and "n = 3"
  shows "double_div (Finite t) n = Finite (7505999378950827 / 2251799813685248)"
  unfolding assms
  using double_of_eval [of 1 "10 / 3" 7505999378950827] by (simp add: double_div_def)

lemma double_of_10_3: "double_of (10 / 3) = Finite (7505999378950827 / 2251799813685248)"
  using double_of_eval [of 1 "10 / 3" 7505999378950827] by simp

lemma tenth_10_3: "tenth (7505999378950827 / 2251799813685248) = 33 / 10"
  by (simp add: tenth_def floor_numeral_quotient)

lemma double_of_33_10: "double_of (33 / 10) = Finite (3715469692580659 / 1125899906842624)"
  using double_of_eval [of 1 "33 / 10" 7430939385161318] by simp

lemma toFixed1_10_3:
  assumes "y = 7505999378950827 / 2251799813685248"
  shows "toFixed1 (Finite y) = Finite (3715469692580659 / 1125899906842624)"
  unfolding assms
  by (simp only: toFixed1_def jsnum.case tenth_10_3 double_of_33_10) simp

lemma double_of_5_2: "double_of (5 / 2) = Finite (5 / 2)"
  using double_of_eval [of 1 "5 / 2" 5629499534213120] by simp

lemma double_div_5_2:
  assumes "t = 5 / 2" and "n = 1"
  shows "double_div (Finite t) n = Finite (5 / 2)"
  unfolding assms
  using double_of_5_2 by (simp add: double_div_def)

lemma tenth_5_2: "tenth (5 / 2) = 5 / 2"
  by (simp add: tenth_def floor_numeral_quotient)

lemma toFixed1_5_2:
  assumes "y = 5 / 2"
  shows "toFixed1 (Finite y) = Finite (5 / 2)"
  unfolding assms
  by (simp only: toFixed1_def jsnum.case tenth_5_2 double_of_5_2) simp

lemma double_add_0_01:
  assumes "a = 0" and "x = 5764607523034235 / 576460752303423488"
  shows "double_add (Finite a) x = Finite (5764607523034235 / 576460752303423488)"
  unfolding assms
  using double_of_eval [of "- 7" "5764607523034235 / 576460752303423488" 5764607523034235]
  by (simp add: double_add_def)

lemma double_add_0_23:
  assumes "a = 5764607523034235 / 576460752303423488" and "x = 7926335344172073 / 36028797018963968"
  shows "double_add (Finite a) x = Finite (8286623314361713 / 36028797018963968)"
  unfolding assms
  using double_of_eval [of "- 3" "5764607523034235 / 576460752303423488 + 7926335344172073 / 36028797018963968"
      8286623314361713]
  by (simp add: double_add_def)

lemma double_add_0_45:
  assumes "a = 8286623314361713 / 36028797018963968" and "x = 7926335344172073 / 36028797018963968"
  shows "double_add (Finite a) x = Finite (8106479329266893 / 18014398509481984)"
  unfolding assms
  using double_of_eval [of "- 2" "8286623314361713 / 36028797018963968 + 7926335344172073 / 36028797018963968"
      8106479329266893]
  by (simp add: double_add_def)

lemma double_div_0_15:
  assumes "t = 8106479329266893 / 18014398509481984" and "n = 3"
  shows "double_div (Finite t) n = Finite (5404319552844595 / 36028797018963968)"
  unfolding assms
  using double_of_eval [of "- 3" "8106479329266893 / 18014398509481984 / 3" 5404319552844595]
  by (simp add: double_div_def)

lemma tenth_0_15: "tenth (5404319552844595 / 36028797018963968) = 1 / 10"
  by (simp add: tenth_def floor_numeral_quotient)

lemma double_of_0_1: "double_of (1 / 10) = Finite (3602879701896397 / 36028797018963968)"
  using double_of_eval [of "- 4" "1 / 10" 7205759403792794] by simp

lemma toFixed1_0_15:
  assumes "y = 5404319552844595 / 36028797018963968"
  shows "toFixed1 (Finite y) = Finite (3602879701896397 / 36028797018963968)"
  unfolding assms
  by (simp only: toFixed1_def jsnum.case tenth_0_15 double_of_0_1) simp

lemma tenth_exact_0_15: "tenth (8106479329266893 / 2 ^ 54 / 3) = 2 / 10"
  by (simp add: tenth_def floor_numeral_quotient)

lemma double_of_0_2: "double_of (2 / 10) = Finite (3602879701896397 / 18014398509481984)"
  using double_of_eval [of "- 3" "2 / 10" 7205759403792794] by simp
text \<open>
  Claim C4. In every metrics state the routes of the snapshot are the rows of the routes
  recorded, each once, sorted by count in descending order. The row of a route with a
  positive count has that count, and as avgMs the double written by \<^verbatim>\<open>toFixed(1)\<close> for the
  double quotient of its total duration by its count. For a quotient below \<open>10 ^ 21\<close> in
  magnitude that is the double nearest to \<open>tenth\<close> of the quotient, a multiple of one tenth
  no more than a twentieth away from the quotient. A finite double differs from the number
  it rounds by at most one part in \<open>2 ^ 53\<close> (or by \<open>1 / 2 ^ 1075\<close>), so for an exact quotient
  below \<open>10 ^ 20\<close> in magnitude avgMs is finite and within a twentieth plus
  \<open>(\<bar>quotient\<bar> + 2) / 2 ^ 51\<close> of the exact quotient. Every route recorded by the
  aggregator has a positive count.
\<close>

theorem routes_sorted_by_count:
  "snap_routes (stats_a ma) = routes_of ma \<and> snap_routes (stats_c mc) = routes_of mc \<and>
   sorted_wrt (\<lambda>a b. row_count b \<le> row_count a) (routes_of m) \<and>
   mset (routes_of m) = mset (map row_of (byRoute m)) \<and>
   (0 < hits v \<longrightarrow>
      row_of (r, v) = \<lparr>route = r, row_count = hits v,
        avgMs = toFixed1 (double_div (totalMs v) (hits v)), row_statuses = statuses v\<rparr>) \<and>
   (\<bar>y\<bar> < 10 ^ 21 \<longrightarrow>
      toFixed1 (Finite y) = double_of (tenth y) \<and>
      (\<exists>k::int. tenth y = of_int k / 10) \<and> \<bar>tenth y - y\<bar> \<le> 1 / 20) \<and>
   (double_of x = Finite d \<longrightarrow> \<bar>d - x\<bar> \<le> max (\<bar>x\<bar> / 2 ^ 53) (1 / 2 ^ 1075)) \<and>
   (0 < hits v \<and> totalMs v = Finite t \<and> \<bar>t / of_nat (hits v)\<bar> < 10 ^ 20 \<longrightarrow>
      (\<exists>a. avgMs (row_of (r, v)) = Finite a \<and>
        \<bar>a - t / of_nat (hits v)\<bar> \<le> 1 / 20 + (\<bar>t / of_nat (hits v)\<bar> + 2) / 2 ^ 51)) \<and>
   (\<forall>e \<in> set (byRoute (foldl recordRequest_a (init_a now) fs)). 0 < hits (snd e)) \<and>
   (\<forall>e \<in> set (byRoute (foldl recordRequest_c (init_c now) fs)). 0 < hits (snd e))"
proof (intro conjI impI)
  show "snap_routes (stats_a ma) = routes_of ma"
    by (simp add: stats_a_def)
  show "snap_routes (stats_c mc) = routes_of mc"
    by (simp add: stats_c_def Let_def)
  show "sorted_wrt (\<lambda>a b. row_count b \<le> row_count a) (routes_of m)"
    by (rule routes_sorted)
  show "mset (routes_of m) = mset (map row_of (byRoute m))"
    by (rule routes_mset)
  show "\<forall>e \<in> set (byRoute (foldl recordRequest_a (init_a now) fs)). 0 < hits (snd e)"
    by (rule hits_positive_a)
  then show "\<forall>e \<in> set (byRoute (foldl recordRequest_c (init_c now) fs)). 0 < hits (snd e)"
    using common_fields [of now fs] by simp
  show "\<exists>k::int. tenth y = of_int k / 10"
    by (rule tenth_tenths)
  show "\<bar>tenth y - y\<bar> \<le> 1 / 20"
    by (rule tenth_near)
next
  assume "0 < hits v"
  then show "row_of (r, v) = \<lparr>route = r, row_count = hits v,
      avgMs = toFixed1 (double_div (totalMs v) (hits v)), row_statuses = statuses v\<rparr>"
    by (simp add: row_of_def)
next
  assume "\<bar>y\<bar> < 10 ^ 21"
  then show "toFixed1 (Finite y) = double_of (tenth y)"
    by (simp add: toFixed1_def)
next
  assume "double_of x = Finite d"
  then show "\<bar>d - x\<bar> \<le> max (\<bar>x\<bar> / 2 ^ 53) (1 / 2 ^ 1075)"
    by (rule double_of_error)
next
  assume a: "0 < hits v \<and> totalMs v = Finite t \<and> \<bar>t / of_nat (hits v)\<bar> < 10 ^ 20"
  then have "avgMs (row_of (r, v)) = toFixed1 (double_div (Finite t) (hits v))"
    by (simp add: row_of_def)
  moreover from a have "\<bar>t / of_nat (hits v)\<bar> < 10 ^ 20" by simp
  then have "\<exists>a. toFixed1 (double_div (Finite t) (hits v)) = Finite a \<and>
      \<bar>a - t / of_nat (hits v)\<bar> \<le> 1 / 20 + (\<bar>t / of_nat (hits v)\<bar> + 2) / 2 ^ 51"
    by (rule avgMs_near)
  ultimately show "\<exists>a. avgMs (row_of (r, v)) = Finite a \<and>
      \<bar>a - t / of_nat (hits v)\<bar> \<le> 1 / 20 + (\<bar>t / of_nat (hits v)\<bar> + 2) / 2 ^ 51"
    by (simp only:)
qed

theorem routes_sorted_by_count_witness:
  "row_of (''GET /api/users/:id'',
      \<lparr>hits = 3, totalMs = Finite 10, statuses = [(200, 2), (404, 1)]\<rparr>) =
     \<lparr>route = ''GET /api/users/:id'', row_count = 3,
      avgMs = Finite (3715469692580659 / 2 ^ 50), row_statuses = [(200, 2), (404, 1)]\<rparr> \<and>
   snap_routes (stats_a \<lparr>startedAt = ''now'', totalRequests = 4,
       byRoute = [(''GET /api/users'', \<lparr>hits = 1, totalMs = Finite (5 / 2), statuses = [(200, 1)]\<rparr>),
                  (''GET /api/users/:id'',
                   \<lparr>hits = 3, totalMs = Finite 10, statuses = [(200, 2), (404, 1)]\<rparr>)],
       recent = []\<rparr>) =
     [\<lparr>route = ''GET /api/users/:id'', row_count = 3,
        avgMs = Finite (3715469692580659 / 2 ^ 50), row_statuses = [(200, 2), (404, 1)]\<rparr>,
      \<lparr>route = ''GET /api/users'', row_count = 1, avgMs = Finite (5 / 2),
        row_statuses = [(200, 1)]\<rparr>] \<and>
   toFixed1 (Finite (7505999378950827 / 2 ^ 51)) = double_of (33 / 10) \<and>
   tenth (7505999378950827 / 2 ^ 51) = 33 / 10 \<and>
   double_of (10 / 3) = Finite (7505999378950827 / 2 ^ 51) \<and>
   \<bar>7505999378950827 / 2 ^ 51 - 10 / 3 :: rat\<bar> \<le> 10 / 3 / 2 ^ 53 \<and>
   \<bar>3715469692580659 / 2 ^ 50 - 10 / 3 :: rat\<bar> \<le> 1 / 20 + (10 / 3 + 2) / 2 ^ 51 \<and>
   map (\<lambda>e. hits (snd e))
     (byRoute (foldl recordRequest_a (init_a ''now'') (sample_requests (Suc (Suc 0))))) = [2]"
  using routes_sorted_by_count [of
      "\<lparr>startedAt = ''now'', totalRequests = 4,
       byRoute = [(''GET /api/users'', \<lparr>hits = 1, totalMs = Finite (5 / 2), statuses = [(200, 1)]\<rparr>),
                  (''GET /api/users/:id'',
                   \<lparr>hits = 3, totalMs = Finite 10, statuses = [(200, 2), (404, 1)]\<rparr>)],
       recent = []\<rparr>"
      "init_c ''now''"
      "\<lparr>startedAt = ''now'', totalRequests = 4,
       byRoute = [(''GET /api/users'', \<lparr>hits = 1, totalMs = Finite (5 / 2), statuses = [(200, 1)]\<rparr>),
                  (''GET /api/users/:id'',
                   \<lparr>hits = 3, totalMs = Finite 10, statuses = [(200, 2), (404, 1)]\<rparr>)],
       recent = []\<rparr>"
      "\<lparr>hits = 3, totalMs = Finite 10, statuses = [(200, 2), (404, 1)]\<rparr>"
      "''GET /api/users/:id''" "7505999378950827 / 2 ^ 51" "10 / 3" "7505999378950827 / 2 ^ 51"
      10 "''now''" "sample_requests (Suc (Suc 0))"]
  by (simp add: stats_a_def routes_of_def sort_cmp_def row_of_def
      double_div_10_3 toFixed1_10_3 double_div_5_2 toFixed1_5_2
      double_of_10_3 double_of_33_10 tenth_10_3
      sample_requests_def fields_a bump_route_def init_a_def Let_def)

text \<open>
  The avgMs of the code is not always the total duration divided by the count and rounded
  to one decimal place. Three requests of a route take 0.01, 0.22 and 0.22 milliseconds
  (the doubles nearest to these): the total is the double 0.45, a little above 0.45, and a
  third of it is a little above 0.15, which rounds to 0.2. The division of the code rounds
  the third to the double 0.15, a little below 0.15, and \<^verbatim>\<open>toFixed(1)\<close> writes 0.1. Both
  server files do so.
\<close>

theorem avgMs_double_rounding_counterexample:
  "byRoute (foldl recordRequest_a (init_a ''now'')
       [\<lparr>f_key = ''GET /api/users'', f_method = ''GET'', f_originalUrl = ''/api/users'',
         f_statusCode = 200, f_ms = 5764607523034235 / 2 ^ 59, f_now = ''t1''\<rparr>,
        \<lparr>f_key = ''GET /api/users'', f_method = ''GET'', f_originalUrl = ''/api/users'',
         f_statusCode = 200, f_ms = 7926335344172073 / 2 ^ 55, f_now = ''t2''\<rparr>,
        \<lparr>f_key = ''GET /api/users'', f_method = ''GET'', f_originalUrl = ''/api/users'',
         f_statusCode = 200, f_ms = 7926335344172073 / 2 ^ 55, f_now = ''t3''\<rparr>]) =
     [(''GET /api/users'',
       \<lparr>hits = 3, totalMs = Finite (8106479329266893 / 2 ^ 54), statuses = [(200, 3)]\<rparr>)] \<and>
   snap_routes (stats_a (foldl recordRequest_a (init_a ''now'')
       [\<lparr>f_key = ''GET /api/users'', f_method = ''GET'', f_originalUrl = ''/api/users'',
         f_statusCode = 200, f_ms = 5764607523034235 / 2 ^ 59, f_now = ''t1''\<rparr>,
        \<lparr>f_key = ''GET /api/users'', f_method = ''GET'', f_originalUrl = ''/api/users'',
         f_statusCode = 200, f_ms = 7926335344172073 / 2 ^ 55, f_now = ''t2''\<rparr>,
        \<lparr>f_key = ''GET /api/users'', f_method = ''GET'', f_originalUrl = ''/api/users'',
         f_statusCode = 200, f_ms = 7926335344172073 / 2 ^ 55, f_now = ''t3''\<rparr>])) =
     [\<lparr>route = ''GET /api/users'', row_count = 3,
       avgMs = Finite (3602879701896397 / 2 ^ 55), row_statuses = [(200, 3)]\<rparr>] \<and>
   snap_routes (stats_c (foldl recordRequest_c (init_c ''now'')
       [\<lparr>f_key = ''GET /api/users'', f_method = ''GET'', f_originalUrl = ''/api/users'',
         f_statusCode = 200, f_ms = 5764607523034235 / 2 ^ 59, f_now = ''t1''\<rparr>,
        \<lparr>f_key = ''GET /api/users'', f_method = ''GET'', f_originalUrl = ''/api/users'',
         f_statusCode = 200, f_ms = 7926335344172073 / 2 ^ 55, f_now = ''t2''\<rparr>,
        \<lparr>f_key = ''GET /api/users'', f_method = ''GET'', f_originalUrl = ''/api/users'',
         f_statusCode = 200, f_ms = 7926335344172073 / 2 ^ 55, f_now = ''t3''\<rparr>])) =
     [\<lparr>route = ''GET /api/users'', row_count = 3,
       avgMs = Finite (3602879701896397 / 2 ^ 55), row_statuses = [(200, 3)]\<rparr>] \<and>
   tenth (8106479329266893 / 2 ^ 54 / 3) = 2 / 10 \<and>
   double_of (2 / 10) = Finite (3602879701896397 / 2 ^ 54) \<and>
   double_of (1 / 10) = Finite (3602879701896397 / 2 ^ 55)"
proof -
  have "tenth (8106479329266893 / 2 ^ 54 / 3) = 2 / 10"
    by (rule tenth_exact_0_15)
  moreover note double_of_0_2 double_of_0_1
  moreover have "byRoute (foldl recordRequest_a (init_a ''now'')
       [\<lparr>f_key = ''GET /api/users'', f_method = ''GET'', f_originalUrl = ''/api/users'',
         f_statusCode = 200, f_ms = 5764607523034235 / 2 ^ 59, f_now = ''t1''\<rparr>,
        \<lparr>f_key = ''GET /api/users'', f_method = ''GET'', f_originalUrl = ''/api/users'',
         f_statusCode = 200, f_ms = 7926335344172073 / 2 ^ 55, f_now = ''t2''\<rparr>,
        \<lparr>f_key = ''GET /api/users'', f_method = ''GET'', f_originalUrl = ''/api/users'',
         f_statusCode = 200, f_ms = 7926335344172073 / 2 ^ 55, f_now = ''t3''\<rparr>]) =
     [(''GET /api/users'',
       \<lparr>hits = 3, totalMs = Finite (8106479329266893 / 2 ^ 54), statuses = [(200, 3)]\<rparr>)]"
    by (simp add: fields_a bump_route_def bump_status_def init_a_def Let_def
        double_add_0_01 double_add_0_23 double_add_0_45)
  moreover have "byRoute (foldl recordRequest_c (init_c ''now'')
       [\<lparr>f_key = ''GET /api/users'', f_method = ''GET'', f_originalUrl = ''/api/users'',
         f_statusCode = 200, f_ms = 5764607523034235 / 2 ^ 59, f_now = ''t1''\<rparr>,
        \<lparr>f_key = ''GET /api/users'', f_method = ''GET'', f_originalUrl = ''/api/users'',
         f_statusCode = 200, f_ms = 7926335344172073 / 2 ^ 55, f_now = ''t2''\<rparr>,
        \<lparr>f_key = ''GET /api/users'', f_method = ''GET'', f_originalUrl = ''/api/users'',
         f_statusCode = 200, f_ms = 7926335344172073 / 2 ^ 55, f_now = ''t3''\<rparr>]) =
     [(''GET /api/users'',
       \<lparr>hits = 3, totalMs = Finite (8106479329266893 / 2 ^ 54), statuses = [(200, 3)]\<rparr>)]"
    by (simp add: fields_c bump_route_def bump_status_def init_c_def Let_def
        double_add_0_01 double_add_0_23 double_add_0_45)
  ultimately show ?thesis
    by (simp add: stats_a_def stats_c_def routes_of_def sort_cmp_def row_of_def Let_def
        double_div_0_15 toFixed1_0_15)
qed
section \<open>Properties of the access guard\<close>

lemma strip_ci_iff:
  "strip_ci ps s = Some rest \<longleftrightarrow>
     (\<exists>pre. s = pre @ rest \<and> list_all2 (\<lambda>p c. c = fst p \<or> c = snd p) ps pre)"
proof (induction ps s rule: strip_ci.induct)
  case (1 s)
  then show ?case by auto
next
  case (2 p ps)
  then show ?case by (auto simp: list_all2_Cons1)
next
  case (3 p ps c cs)
  show ?case
  proof (cases "c = fst p \<or> c = snd p")
    case True
    have "(\<exists>pre. c # cs = pre @ rest \<and> list_all2 (\<lambda>p c. c = fst p \<or> c = snd p) (p # ps) pre) \<longleftrightarrow>
          (\<exists>pre'. cs = pre' @ rest \<and> list_all2 (\<lambda>p c. c = fst p \<or> c = snd p) ps pre')"
      using True by (auto simp: list_all2_Cons1 Cons_eq_append_conv)
    with 3 True show ?thesis by simp
  next
    case False
    have "\<not> (\<exists>pre. c # cs = pre @ rest \<and> list_all2 (\<lambda>p c. c = fst p \<or> c = snd p) (p # ps) pre)"
      using False by (auto simp: list_all2_Cons1 Cons_eq_append_conv)
    with False show ?thesis by simp
  qed
qed

lemma try_spaces_sound:
  "try_spaces k rest = Some tok \<Longrightarrow>
     \<exists>j. 1 \<le> j \<and> j \<le> k \<and> tok = drop j rest \<and> tok \<noteq> [] \<and> list_all is_dot tok"
proof (induction k)
  case 0
  then show ?case by simp
next
  case (Suc k)
  show ?case
  proof (cases "drop (Suc k) rest \<noteq> [] \<and> list_all is_dot (drop (Suc k) rest)")
    case True
    with Suc.prems have "tok = drop (Suc k) rest" by (simp add: Let_def)
    with True show ?thesis by (intro exI [of _ "Suc k"]) simp
  next
    case False
    with Suc.prems have "try_spaces k rest = Some tok" by (auto simp: Let_def)
    from Suc.IH [OF this] obtain j where "1 \<le> j" "j \<le> k" "tok = drop j rest" "tok \<noteq> []"
      "list_all is_dot tok" by blast
    then show ?thesis by (intro exI [of _ j]) simp
  qed
qed

lemma try_spaces_complete:
  "1 \<le> j \<Longrightarrow> j \<le> k \<Longrightarrow> drop j rest \<noteq> [] \<Longrightarrow> list_all is_dot (drop j rest) \<Longrightarrow>
     try_spaces k rest \<noteq> None"
proof (induction k)
  case 0
  then show ?case by simp
next
  case (Suc k)
  show ?case
  proof (cases "j = Suc k")
    case True
    with Suc.prems show ?thesis by (simp add: Let_def)
  next
    case False
    with Suc.prems have "j \<le> k" by simp
    with Suc have "try_spaces k rest \<noteq> None" by simp
    then show ?thesis by (simp add: Let_def)
  qed
qed

lemma try_spaces_first:
  "0 < k \<Longrightarrow> drop k rest \<noteq> [] \<Longrightarrow> list_all is_dot (drop k rest) \<Longrightarrow>
     try_spaces k rest = Some (drop k rest)"
  by (cases k) (simp_all add: Let_def)

lemma takeWhile_spaces:
  "list_all is_space ws \<Longrightarrow> takeWhile is_space (ws @ tok) = ws @ takeWhile is_space tok"
  by (induction ws) simp_all

lemma match_sound:
  assumes "match_ApiKey auth = Some tok"
  shows "ApiKey_pattern auth tok"
proof -
  from assms obtain rest where rest: "strip_ci scheme auth = Some rest"
    and t: "try_spaces (length (takeWhile is_space rest)) rest = Some tok"
    by (auto simp: match_ApiKey_def split: option.splits)
  from rest obtain pre where pre: "auth = pre @ rest"
    "list_all2 (\<lambda>p c. c = fst p \<or> c = snd p) scheme pre"
    by (auto simp: strip_ci_iff)
  from try_spaces_sound [OF t] obtain j where j: "1 \<le> j" "j \<le> length (takeWhile is_space rest)"
    "tok = drop j rest" "tok \<noteq> []" "list_all is_dot tok" by blast
  have "take j rest = take j (takeWhile is_space rest)"
    using j(2) by (metis append_eq_conv_conj takeWhile_dropWhile_id take_all_iff take_append
        diff_is_0_eq' take_0 append_Nil2)
  then have "set (take j rest) \<subseteq> set (takeWhile is_space rest)"
    by (simp add: set_take_subset)
  then have sp: "list_all is_space (take j rest)"
    by (auto simp: list_all_iff dest: set_takeWhileD)
  have "take j rest \<noteq> []" using j by auto
  moreover have "auth = pre @ take j rest @ tok" using pre j by simp
  ultimately show ?thesis
    unfolding ApiKey_pattern_def using pre(2) sp j(4,5) by blast
qed

lemma match_complete:
  assumes "ApiKey_pattern auth tok"
  shows "match_ApiKey auth \<noteq> None"
    and "\<not> is_space (hd tok) \<Longrightarrow> match_ApiKey auth = Some tok"
proof -
  from assms obtain pre ws where p: "auth = pre @ ws @ tok"
    "list_all2 (\<lambda>p c. c = fst p \<or> c = snd p) scheme pre"
    "ws \<noteq> []" "list_all is_space ws" "tok \<noteq> []" "list_all is_dot tok"
    unfolding ApiKey_pattern_def by blast
  then have rest: "strip_ci scheme auth = Some (ws @ tok)"
    by (auto simp: strip_ci_iff)
  have w: "takeWhile is_space (ws @ tok) = ws @ takeWhile is_space tok"
    using p(4) by (rule takeWhile_spaces)
  have "try_spaces (length (takeWhile is_space (ws @ tok))) (ws @ tok) \<noteq> None"
  proof (rule try_spaces_complete [of "length ws"])
    show "1 \<le> length ws" using p(3) by (cases ws) simp_all
    show "length ws \<le> length (takeWhile is_space (ws @ tok))" by (simp add: w)
    show "drop (length ws) (ws @ tok) \<noteq> []" using p(5) by simp
    show "list_all is_dot (drop (length ws) (ws @ tok))" using p(6) by simp
  qed
  with rest show "match_ApiKey auth \<noteq> None"
    by (simp add: match_ApiKey_def)
  show "match_ApiKey auth = Some tok" if "\<not> is_space (hd tok)"
  proof -
    from that p(5) have "takeWhile is_space tok = []" by (cases tok) simp_all
    with w have "length (takeWhile is_space (ws @ tok)) = length ws" by simp
    moreover have "try_spaces (length ws) (ws @ tok) = Some (drop (length ws) (ws @ tok))"
      using p(3,5,6) by (intro try_spaces_first) simp_all
    ultimately show ?thesis using rest by (simp add: match_ApiKey_def)
  qed
qed

lemma API_KEY_nonempty: "API_KEY env \<noteq> []"
  by (simp add: API_KEY_def split: option.splits)

lemma provided_header: "h \<noteq> [] \<Longrightarrow> provided (Some h) a = h"
  by (simp add: provided_def)

lemma provided_no_header:
  "x = None \<or> x = Some [] \<Longrightarrow>
     provided x a = (case match_ApiKey (case a of Some s \<Rightarrow> s | None \<Rightarrow> []) of
        Some g \<Rightarrow> g | None \<Rightarrow> [])"
  by (auto simp: provided_def Let_def split: option.splits)

lemma match_empty: "match_ApiKey [] = None"
  by (simp add: match_ApiKey_def scheme_def)

text \<open>
  Claim C7. The key the guard goes by is the X-API-Key header when that is sent and not
  empty; otherwise it is the token of an Authorization header of the form
  \<^verbatim>\<open>ApiKey <token>\<close>, the scheme in any case, and there is none when the header is not sent
  or has not that form. The guard answers 401 "missing API key" exactly when there is no
  key, 401 "invalid API key" exactly when there is one and it is not the configured secret,
  compared as a string, and lets the request through exactly when the key is the secret.
\<close>

theorem access_guard:
  "(apiKeyRequired env x a = Some (ErrorJson 401 ''missing API key'') \<longleftrightarrow> provided x a = []) \<and>
   (apiKeyRequired env x a = Some (ErrorJson 401 ''invalid API key'') \<longleftrightarrow>
      provided x a \<noteq> [] \<and> provided x a \<noteq> API_KEY env) \<and>
   (apiKeyRequired env x a = None \<longleftrightarrow> provided x a = API_KEY env) \<and>
   (h \<noteq> [] \<longrightarrow> provided (Some h) a = h) \<and>
   ((x = None \<or> x = Some []) \<and> a = Some s \<and> ApiKey_pattern s tok \<and> \<not> is_space (hd tok) \<longrightarrow>
      provided x a = tok) \<and>
   ((x = None \<or> x = Some []) \<and> provided x a \<noteq> [] \<longrightarrow>
      (\<exists>s. a = Some s \<and> ApiKey_pattern s (provided x a))) \<and>
   (provided x a = [] \<longleftrightarrow>
      (x = None \<or> x = Some []) \<and> (a = None \<or> (\<exists>s. a = Some s \<and> (\<forall>tok. \<not> ApiKey_pattern s tok))))"
proof -
  have key: "API_KEY env \<noteq> []" by (rule API_KEY_nonempty)
  have r1: "apiKeyRequired env x a = Some (ErrorJson 401 ''missing API key'') \<longleftrightarrow> provided x a = []"
    by (simp add: apiKeyRequired_def Let_def)
  have r2: "apiKeyRequired env x a = Some (ErrorJson 401 ''invalid API key'') \<longleftrightarrow>
      provided x a \<noteq> [] \<and> provided x a \<noteq> API_KEY env"
    by (simp add: apiKeyRequired_def Let_def)
  have r3: "apiKeyRequired env x a = None \<longleftrightarrow> provided x a = API_KEY env"
    using key by (auto simp: apiKeyRequired_def Let_def)
  have p1: "h \<noteq> [] \<longrightarrow> provided (Some h) a = h"
    by (simp add: provided_header)
  have p2: "provided x a = tok"
    if "x = None \<or> x = Some []" "a = Some s" "ApiKey_pattern s tok" "\<not> is_space (hd tok)"
    using that match_complete(2) [of s tok] by (simp add: provided_no_header)
  have from_auth: "\<exists>s. a = Some s \<and> ApiKey_pattern s (provided x a)"
    if e: "x = None \<or> x = Some []" and ne: "provided x a \<noteq> []"
  proof (cases a)
    case None
    with e ne show ?thesis by (simp add: provided_no_header match_empty)
  next
    case (Some s)
    with e ne obtain g where g: "match_ApiKey s = Some g" "provided x a = g"
      by (auto simp: provided_no_header split: option.splits)
    from match_sound [OF g(1)] g(2) Some show ?thesis by simp
  qed
  have none: "provided x a = [] \<longleftrightarrow>
      (x = None \<or> x = Some []) \<and> (a = None \<or> (\<exists>s. a = Some s \<and> (\<forall>tok. \<not> ApiKey_pattern s tok)))"
  proof
    assume empty: "provided x a = []"
    have e: "x = None \<or> x = Some []"
    proof (cases x)
      case None
      then show ?thesis by simp
    next
      case (Some h)
      with empty provided_header [of h a] show ?thesis by (cases "h = []") auto
    qed
    have "\<not> ApiKey_pattern s tok" if "a = Some s" for s tok
    proof
      assume "ApiKey_pattern s tok"
      then have "match_ApiKey s \<noteq> None" by (rule match_complete(1))
      then obtain g where g: "match_ApiKey s = Some g" by auto
      from match_sound [OF g] have "g \<noteq> []" by (auto simp: ApiKey_pattern_def)
      with e that g empty show False by (simp add: provided_no_header)
    qed
    with e show "(x = None \<or> x = Some []) \<and>
        (a = None \<or> (\<exists>s. a = Some s \<and> (\<forall>tok. \<not> ApiKey_pattern s tok)))"
      by (cases a) auto
  next
    assume r: "(x = None \<or> x = Some []) \<and>
        (a = None \<or> (\<exists>s. a = Some s \<and> (\<forall>tok. \<not> ApiKey_pattern s tok)))"
    show "provided x a = []"
    proof (rule ccontr)
      assume "provided x a \<noteq> []"
      with r from_auth show False by blast
    qed
  qed
  from r1 r2 r3 p1 p2 from_auth none show ?thesis by blast
qed

theorem access_guard_witness:
  "ApiKey_pattern ''apikey  dev-api-key-change-me'' ''dev-api-key-change-me'' \<and>
   \<not> is_space (hd ''dev-api-key-change-me'') \<and>
   provided None (Some ''apikey  dev-api-key-change-me'') = ''dev-api-key-change-me'' \<and>
   apiKeyRequired None None (Some ''apikey  dev-api-key-change-me'') = None \<and>
   apiKeyRequired None (Some ''dev-api-key-change-me'') None = None \<and>
   apiKeyRequired None (Some ''wrong'') None = Some (ErrorJson 401 ''invalid API key'') \<and>
   apiKeyRequired None None (Some ''Bearer abc'') = Some (ErrorJson 401 ''missing API key'') \<and>
   apiKeyRequired None None None = Some (ErrorJson 401 ''missing API key'')"
proof -
  have pat: "ApiKey_pattern ''apikey  dev-api-key-change-me'' ''dev-api-key-change-me''"
    unfolding ApiKey_pattern_def
    by (rule exI [of _ "''apikey''"], rule exI [of _ "''  ''"])
      (simp add: scheme_def is_space_def is_dot_def)
  have sp: "\<not> is_space (hd ''dev-api-key-change-me'')"
    by (simp add: is_space_def)
  from access_guard [of None None "Some ''apikey  dev-api-key-change-me''" "''wrong''"
      "''apikey  dev-api-key-change-me''" "''dev-api-key-change-me''"] pat sp
  have "provided None (Some ''apikey  dev-api-key-change-me'') = ''dev-api-key-change-me''"
    and "apiKeyRequired None None (Some ''apikey  dev-api-key-change-me'') = None"
    by (simp_all add: API_KEY_def)
  moreover have "apiKeyRequired None (Some ''dev-api-key-change-me'') None = None"
    and "apiKeyRequired None (Some ''wrong'') None = Some (ErrorJson 401 ''invalid API key'')"
    and "apiKeyRequired None None (Some ''Bearer abc'') = Some (ErrorJson 401 ''missing API key'')"
    and "apiKeyRequired None None None = Some (ErrorJson 401 ''missing API key'')"
    by (simp_all add: apiKeyRequired_def provided_def match_ApiKey_def scheme_def API_KEY_def Let_def)
  ultimately show ?thesis using pat sp by simp
qed


end
